theory Spec2Isabelle
  imports Complex_Main "HOL-Library.Word" "HOL-Library.AList"
begin

unbundle bit_operations_syntax

section \<open>Common types\<close>

text \<open>
  The C++ sources abort through \<open>assert\<close>, read vectors with an unchecked
  \<open>operator[]\<close>, follow pointers that \<open>getSuperpixelPtr\<close> may have returned as
  \<open>NULL\<close>, and report a bad label image by returning \<open>false\<close>. Each of these
  exits is a value of \<open>error\<close>; a function that can take one returns
  \<open>error + 'a\<close>.
\<close>

datatype error =
    AssertionFailed
  | OutOfRange
  | InputValidation
  | NullDereference

text \<open>
  A region id (\<open>int32_t tag\<close>) is an \<open>int\<close>: the ids that occur are the 24-bit
  labels plus one, so no id arithmetic wraps.
\<close>

type_synonym tag_id = int

section \<open>Single-precision arithmetic\<close>

text \<open>
  A \<open>float\<close> is modelled by the real number it denotes, and an operation on
  floats by the exact operation followed by \<open>float32\<close>, the rounding of IEEE 754
  binary32 arithmetic: to the nearest number with a 24-bit significand, a tie going
  to the even significand. \<open>float_exponent\<close> finds the binade of a number, from
  \<open>2 powi - 126\<close> (everything smaller is subnormal and rounds on the same grid) up
  to \<open>2 powi 127\<close>. Overflow to an infinity and NaN are outside the model.
\<close>

definition round_half_even :: "real \<Rightarrow> int" where
  "round_half_even r =
     (let f = \<lfloor>r\<rfloor>
      in if r - of_int f < 1 / 2 then f
         else if r - of_int f > 1 / 2 then f + 1
         else if even f then f else f + 1)"

fun binade :: "int \<Rightarrow> nat \<Rightarrow> real \<Rightarrow> int" where
  "binade e 0 x = e"
| "binade e (Suc n) x = (if \<bar>x\<bar> < 2 powi (e + 1) then e else binade (e + 1) n x)"

definition float_exponent :: "real \<Rightarrow> int" where
  "float_exponent x = binade (- 126) 253 x"

definition float32 :: "real \<Rightarrow> real" where
  "float32 x =
     (let ulp = 2 powi (float_exponent x - 23)
      in of_int (round_half_even (x / ulp)) * ulp)"

definition fadd :: "real \<Rightarrow> real \<Rightarrow> real" where
  "fadd a b = float32 (a + b)"

definition fsub :: "real \<Rightarrow> real \<Rightarrow> real" where
  "fsub a b = float32 (a - b)"

definition fmul :: "real \<Rightarrow> real \<Rightarrow> real" where
  "fmul a b = float32 (a * b)"

section \<open>Statistical bound checker\<close>

subsection \<open>Helpers declared in Util.h\<close>

text \<open>
  Modelled from the spec: \<open>float_diffs\<close>, \<open>sample_mean\<close> and
  \<open>sample_mean_delta_squared_div\<close> are declared in Util.h, which is not part of
  the sources at hand. The spec calls them "successive deltas" and "mean and
  population standard deviation"; the caller's comment "always ignore first element
  since it is a delta from zero" fixes that the first delta is taken against 0 and
  that the result is as long as the input. Their results are floats: each delta is
  the rounded difference, and the mean and the deviation are the exact statistics of
  the given floats, rounded once (the order in which the absent code accumulates its
  sums is not known). The mean and the deviation of no values come out as 0 here
  (HOL's division by zero).
\<close>

fun float_diffs_from :: "real \<Rightarrow> real list \<Rightarrow> real list" where
  "float_diffs_from prev [] = []"
| "float_diffs_from prev (v # vs) = fsub v prev # float_diffs_from v vs"

definition float_diffs :: "real list \<Rightarrow> real list" where
  "float_diffs vs = float_diffs_from 0 vs"

definition sample_mean :: "real list \<Rightarrow> real" where
  "sample_mean vs = float32 (sum_list vs / real (length vs))"

definition sample_mean_delta_squared_div :: "real list \<Rightarrow> real \<Rightarrow> real" where
  "sample_mean_delta_squared_div vs mean =
     float32 (sqrt (sum_list (map (\<lambda>v. (v - mean) * (v - mean)) vs) / real (length vs)))"

subsection \<open>pos_sample_within_bound\<close>

text \<open>\<open>v.erase(v.begin())\<close>: undefined on an empty vector.\<close>

fun erase_begin :: "'a list \<Rightarrow> error + 'a list" where
  "erase_begin [] = Inl OutOfRange"
| "erase_begin (x # xs) = Inr xs"

text \<open>
  The first loop over \<open>deltaWeights\<close>: counts the positive deltas in
  \<open>numNonNegDeltas\<close> and appends the absolute value of every nonzero delta to
  \<open>useDeltas\<close>.
\<close>

fun scan_deltas :: "real list \<Rightarrow> nat \<Rightarrow> real list \<Rightarrow> nat \<times> real list" where
  "scan_deltas [] numNonNegDeltas useDeltas = (numNonNegDeltas, useDeltas)"
| "scan_deltas (deltaWeight # rest) numNonNegDeltas useDeltas =
     (if deltaWeight \<noteq> 0 then
        (if deltaWeight > 0
         then scan_deltas rest (numNonNegDeltas + 1) (useDeltas @ [deltaWeight])
         else scan_deltas rest numNonNegDeltas (useDeltas @ [fmul deltaWeight (- 1)]))
      else scan_deltas rest numNonNegDeltas useDeltas)"

text \<open>
  The second loop, over \<open>weights\<close> after its first element (which only seeds
  \<open>prev\<close>): keeps the weights that exceed the last kept one.
\<close>

fun increasing_from :: "real \<Rightarrow> real list \<Rightarrow> real list" where
  "increasing_from prev [] = []"
| "increasing_from prev (weight # rest) =
     (if weight > prev then weight # increasing_from weight rest
      else increasing_from prev rest)"

text \<open>
  The end of the function, from \<open>sample_mean\<close> on. \<open>weights\<close> is the vector the
  function holds at that point: the caller's history, or \<open>increasingWeights\<close>
  after the assignment \<open>weights = increasingWeights\<close>. The vector is a reference
  parameter, so it is returned beside the verdict. \<open>minStddev\<close> is the float
  \<open>0.01f\<close>.
\<close>

definition bound_verdict :: "real list \<Rightarrow> real list \<Rightarrow> real \<Rightarrow> error + (bool \<times> real list)" where
  "bound_verdict weights useDeltas currentWeight =
     (let mean = sample_mean useDeltas;
          stddev = sample_mean_delta_squared_div useDeltas mean;
          upperLimit = fadd mean (fmul stddev 2)
      in if weights = [] then Inl OutOfRange
         else
           let lastWeight = weights ! (length weights - 1);
               currentWeightDelta = fsub currentWeight lastWeight;
               minStddev = float32 (1 / 100)
           in if stddev > minStddev \<and> currentWeightDelta > 0 \<and> currentWeightDelta > upperLimit
              then Inr (False, weights)
              else Inr (True, weights))"

definition pos_sample_within_bound :: "real list \<Rightarrow> real \<Rightarrow> error + (bool \<times> real list)" where
  "pos_sample_within_bound weights currentWeight =
     (if length weights = 1 \<and> weights ! 0 > 1 / 2 then Inr (False, weights)
      else if length weights \<le> 2 then Inr (True, weights)
      else
        case erase_begin (float_diffs weights) of
          Inl e \<Rightarrow> Inl e
        | Inr deltaWeights \<Rightarrow>
            if \<not> length deltaWeights \<ge> 2 then Inl AssertionFailed
            else
              let (numNonNegDeltas, useDeltas) = scan_deltas deltaWeights 0 []
              in if numNonNegDeltas \<ge> 3 then
                   let increasingWeights = increasing_from (hd weights) (tl weights)
                   in if \<not> length increasingWeights > 0 then Inl AssertionFailed
                      else
                        case erase_begin (float_diffs increasingWeights) of
                          Inl e \<Rightarrow> Inl e
                        | Inr increasingDeltas \<Rightarrow>
                            bound_verdict increasingWeights increasingDeltas currentWeight
                 else bound_verdict weights useDeltas currentWeight)"

subsection \<open>The weight history kept by mergeAlikeSuperpixels\<close>

text \<open>
  The one caller of \<open>pos_sample_within_bound\<close>: \<open>mergeAlikeSuperpixels\<close> copies
  the history \<open>histWeights[maxTag]\<close> of the growing region (empty for a region it
  has not grown yet), passes the copy, which the check may overwrite, and on
  acceptance of a nonzero weight appends the weight to the copy and stores the copy
  back. \<open>histWeights_after\<close> is the stored history after one such round.
\<close>

definition histWeights_after :: "real list \<Rightarrow> real \<Rightarrow> error + real list" where
  "histWeights_after stored minWeight =
     (case pos_sample_within_bound stored minWeight of
        Inl e \<Rightarrow> Inl e
      | Inr (mergeThisEdge, weights) \<Rightarrow>
          if mergeThisEdge \<and> minWeight \<noteq> 0 then Inr (weights @ [minWeight])
          else Inr stored)"

section \<open>Region store and adjacency table\<close>

text \<open>
  Modelled from the spec: the classes \<open>Superpixel\<close>, \<open>SuperpixelEdge\<close> and
  \<open>SuperpixelEdgeTable\<close> are declared in headers that are not part of the sources
  at hand; only their uses are. A region has an id, its coordinates in append order
  and the two weight histories. An edge is an unordered pair of ids, kept with the
  smaller id first. The adjacency table maps an id to its neighbor row and an edge
  to its cached weight; \<open>setNeighbors\<close> replaces a row, \<open>removeNeighbors\<close> deletes
  it, and the row of an id that has none reads as empty.
\<close>

type_synonym Coord = "int \<times> int"

record Superpixel =
  tag :: tag_id
  coords :: "Coord list"
  mergedEdgeWeights :: "real list"
  unmergedEdgeWeights :: "real list"

definition new_Superpixel :: "tag_id \<Rightarrow> Superpixel" where
  "new_Superpixel t =
     \<lparr>tag = t, coords = [], mergedEdgeWeights = [], unmergedEdgeWeights = []\<rparr>"

definition appendCoord :: "Superpixel \<Rightarrow> int \<Rightarrow> int \<Rightarrow> Superpixel" where
  "appendCoord sp x y = sp\<lparr>coords := coords sp @ [(x, y)]\<rparr>"

type_synonym SuperpixelEdge = "tag_id \<times> tag_id"

definition SuperpixelEdge :: "tag_id \<Rightarrow> tag_id \<Rightarrow> SuperpixelEdge" where
  "SuperpixelEdge a b = (min a b, max a b)"

record SuperpixelEdgeTable =
  neighbors :: "tag_id \<rightharpoonup> tag_id list"
  edgeStrengthMap :: "SuperpixelEdge \<rightharpoonup> real"

definition empty_SuperpixelEdgeTable :: SuperpixelEdgeTable where
  "empty_SuperpixelEdgeTable = \<lparr>neighbors = Map.empty, edgeStrengthMap = Map.empty\<rparr>"

definition getNeighbors :: "SuperpixelEdgeTable \<Rightarrow> tag_id \<Rightarrow> tag_id list" where
  "getNeighbors et t = (case neighbors et t of None \<Rightarrow> [] | Some row \<Rightarrow> row)"

definition setNeighbors :: "SuperpixelEdgeTable \<Rightarrow> tag_id \<Rightarrow> tag_id list \<Rightarrow> SuperpixelEdgeTable" where
  "setNeighbors et t row = et\<lparr>neighbors := (neighbors et)(t \<mapsto> row)\<rparr>"

definition removeNeighbors :: "SuperpixelEdgeTable \<Rightarrow> tag_id \<Rightarrow> SuperpixelEdgeTable" where
  "removeNeighbors et t = et\<lparr>neighbors := (neighbors et)(t := None)\<rparr>"

definition eraseEdgeStrength :: "SuperpixelEdgeTable \<Rightarrow> SuperpixelEdge \<Rightarrow> SuperpixelEdgeTable" where
  "eraseEdgeStrength et key = et\<lparr>edgeStrengthMap := (edgeStrengthMap et)(key := None)\<rparr>"

text \<open>
  \<open>SuperpixelImage\<close>: \<open>tagToSuperpixelMap\<close> owns the regions (an
  \<open>unordered_map\<close> from id to object, here an association list with one entry per
  key so that its keys can be enumerated), \<open>superpixels\<close> is the vector of active
  ids, \<open>edgeTable\<close> the adjacency table.
\<close>

record SuperpixelImage =
  tagToSuperpixelMap :: "(tag_id \<times> Superpixel) list"
  superpixels :: "tag_id list"
  edgeTable :: SuperpixelEdgeTable

definition empty_SuperpixelImage :: SuperpixelImage where
  "empty_SuperpixelImage =
     \<lparr>tagToSuperpixelMap = [], superpixels = [], edgeTable = empty_SuperpixelEdgeTable\<rparr>"

definition getSuperpixelPtr :: "SuperpixelImage \<Rightarrow> tag_id \<Rightarrow> Superpixel option" where
  "getSuperpixelPtr s uid = map_of (tagToSuperpixelMap s) uid"

subsection \<open>binary_search_iter\<close>

text \<open>
  \<open>std::lower_bound\<close> on a random-access range, as the standard library writes
  it: \<open>first\<close> and \<open>count\<close> delimit the part still searched.
\<close>

function lower_bound :: "tag_id list \<Rightarrow> nat \<Rightarrow> nat \<Rightarrow> tag_id \<Rightarrow> nat" where
  "lower_bound xs first count val =
     (if count > 0 then
        (if xs ! (first + count div 2) < val
         then lower_bound xs (first + count div 2 + 1) (count - (count div 2 + 1)) val
         else lower_bound xs first (count div 2) val)
      else first)"
  by pat_completeness auto
termination
  by (relation "measure (\<lambda>(xs, first, count, val). count)") auto

text \<open>The result is an index into \<open>xs\<close>; \<open>length xs\<close> stands for \<open>last\<close>.\<close>

definition binary_search_iter :: "tag_id list \<Rightarrow> tag_id \<Rightarrow> nat" where
  "binary_search_iter xs val =
     (let first = lower_bound xs 0 (length xs) val
      in if first \<noteq> length xs then (if val < xs ! first then length xs else first)
         else length xs)"

definition erase_at :: "'a list \<Rightarrow> nat \<Rightarrow> 'a list" where
  "erase_at xs i = take i xs @ drop (Suc i) xs"

subsection \<open>mergeEdge\<close>

text \<open>
  The loop over \<open>neighborsDst\<close>: erases every occurrence of the source id, records
  in \<open>found\<close> whether there was one, and drops the cached weight of each edge
  between the destination and an entry of the row.
\<close>

fun erase_src_from_dst ::
  "tag_id \<Rightarrow> tag_id \<Rightarrow> tag_id list \<Rightarrow> bool \<Rightarrow> SuperpixelEdgeTable \<Rightarrow>
   tag_id list \<times> bool \<times> SuperpixelEdgeTable" where
  "erase_src_from_dst srcTag dstTag [] found et = ([], found, et)"
| "erase_src_from_dst srcTag dstTag (neighborOfDstTag # rest) found et =
     (let et' = eraseEdgeStrength et (SuperpixelEdge dstTag neighborOfDstTag)
      in if neighborOfDstTag = srcTag then erase_src_from_dst srcTag dstTag rest True et'
         else (case erase_src_from_dst srcTag dstTag rest found et' of
                 (kept, found', et'') \<Rightarrow> (neighborOfDstTag # kept, found', et'')))"

text \<open>
  The inner loop over the row of one neighbor of the source: erases the source id
  from the row and enters every other id into \<open>neighborsOfSrcNotDstMap\<close>.
\<close>

fun erase_src_from_row ::
  "tag_id \<Rightarrow> tag_id list \<Rightarrow> bool \<Rightarrow> (tag_id \<rightharpoonup> int) \<Rightarrow>
   tag_id list \<times> bool \<times> (tag_id \<rightharpoonup> int)" where
  "erase_src_from_row srcTag [] found notDst = ([], found, notDst)"
| "erase_src_from_row srcTag (n # rest) found notDst =
     (if n = srcTag then erase_src_from_row srcTag rest True notDst
      else (case erase_src_from_row srcTag rest found (notDst(n \<mapsto> 0)) of
              (kept, found', notDst') \<Rightarrow> (n # kept, found', notDst')))"

text \<open>
  The loop over \<open>neighborsSrc\<close>, a copy of the source's row. The assertion on
  \<open>found\<close> sits inside the loop body.
\<close>

fun relink_src_neighbors ::
  "tag_id \<Rightarrow> tag_id \<Rightarrow> tag_id list \<Rightarrow> SuperpixelEdgeTable \<Rightarrow> error + SuperpixelEdgeTable" where
  "relink_src_neighbors srcTag dstTag [] et = Inr et"
| "relink_src_neighbors srcTag dstTag (neighborOfSrcTag # rest) et =
     (let et1 = eraseEdgeStrength et (SuperpixelEdge srcTag neighborOfSrcTag)
      in if neighborOfSrcTag = dstTag then relink_src_neighbors srcTag dstTag rest et1
         else
           (case erase_src_from_row srcTag (getNeighbors et1 neighborOfSrcTag) False Map.empty of
              (row, found, neighborsOfSrcNotDstMap) \<Rightarrow>
                if \<not> found then Inl AssertionFailed
                else if neighborsOfSrcNotDstMap dstTag = None then
                  (let row' = row @ [dstTag];
                       neighborsDst = getNeighbors et1 dstTag @ [neighborOfSrcTag];
                       et2 = setNeighbors et1 dstTag neighborsDst
                   in relink_src_neighbors srcTag dstTag rest
                        (setNeighbors et2 neighborOfSrcTag row'))
                else relink_src_neighbors srcTag dstTag rest
                       (setNeighbors et1 neighborOfSrcTag row)))"

text \<open>
  \<open>mergeEdge\<close> from the coordinate transfer on, with \<open>srcPtr\<close> and \<open>dstPtr\<close>
  chosen. \<open>srcKey\<close> and \<open>dstKey\<close> are the keys the two objects were found
  under: the objects are changed through their pointers, so each changed object
  stays under its key, while the code reads every id from the \<open>tag\<close> field and
  erases the source under that. The checks compiled only with \<open>DEBUG\<close> are left
  out.
\<close>

definition merge_src_into_dst ::
  "tag_id \<Rightarrow> Superpixel \<Rightarrow> tag_id \<Rightarrow> Superpixel \<Rightarrow> SuperpixelImage \<Rightarrow> error + SuperpixelImage" where
  "merge_src_into_dst srcKey src dstKey dst s =
     (let dst1 = dst\<lparr>coords := coords dst @ coords src\<rparr>;
          src1 = src\<lparr>coords := []\<rparr>;
          it = binary_search_iter (superpixels s) (tag src1)
      in if \<not> it \<noteq> length (superpixels s) then Inl AssertionFailed
         else
           let superpixels' = erase_at (superpixels s) it
           in case erase_src_from_dst (tag src1) (tag dst1)
                     (getNeighbors (edgeTable s) (tag dst1)) False (edgeTable s) of
                (neighborsDst, found, et1) \<Rightarrow>
                  if \<not> found then Inl AssertionFailed
                  else
                    let et2 = setNeighbors et1 (tag dst1) neighborsDst
                    in case relink_src_neighbors (tag src1) (tag dst1)
                              (getNeighbors et2 (tag src1)) et2 of
                         Inl e \<Rightarrow> Inl e
                       | Inr et3 \<Rightarrow>
                           let et4 = removeNeighbors et3 (tag src1);
                               dst2 = (if length (mergedEdgeWeights src1) > 0
                                       then dst1\<lparr>mergedEdgeWeights :=
                                              mergedEdgeWeights dst1 @ mergedEdgeWeights src1\<rparr>
                                       else dst1);
                               dst3 = (if length (unmergedEdgeWeights src1) > 0
                                       then dst2\<lparr>unmergedEdgeWeights :=
                                              unmergedEdgeWeights dst2 @ unmergedEdgeWeights src1\<rparr>
                                       else dst2);
                               tagToRemove = tag src1;
                               objects = AList.update dstKey dst3
                                           (AList.update srcKey src1 (tagToSuperpixelMap s))
                           in Inr (s\<lparr>tagToSuperpixelMap := AList.delete tagToRemove objects,
                                     superpixels := superpixels',
                                     edgeTable := et4\<rparr>))"

text \<open>
  \<open>mergeEdge\<close>: the two regions are looked up under the ids of the edge; the one
  with fewer coordinates is the source, and on equal counts the second one is.
\<close>

definition mergeEdge :: "tag_id \<Rightarrow> tag_id \<Rightarrow> SuperpixelImage \<Rightarrow> error + SuperpixelImage" where
  "mergeEdge A B s =
     (if \<not> A \<noteq> B then Inl AssertionFailed
      else
        case getSuperpixelPtr s A of
          None \<Rightarrow> Inl AssertionFailed
        | Some spA \<Rightarrow>
            (case getSuperpixelPtr s B of
               None \<Rightarrow> Inl AssertionFailed
             | Some spB \<Rightarrow>
                 let numCoordsA = length (coords spA);
                     numCoordsB = length (coords spB)
                 in if numCoordsA \<ge> numCoordsB
                    then merge_src_into_dst B spB A spA s
                    else merge_src_into_dst A spA B spB s))"

subsection \<open>scanLargestSuperpixels\<close>

definition MaxSmallNumPixelsVal :: int where
  "MaxSmallNumPixelsVal = 10"




section \<open>Parsing a label image\<close>

subsection \<open>Label images\<close>

text \<open>
  A \<open>Vec3b\<close> is the three bytes of a pixel, \<open>tag[0]\<close> first. A \<open>Mat\<close> of
  three-channel bytes has its dimensions and its pixels, read as \<open>at<Vec3b>(y, x)\<close>.
\<close>

type_synonym Vec3b = "8 word \<times> 8 word \<times> 8 word"

record Mat =
  rows :: int
  cols :: int
  at_yx :: "int \<Rightarrow> int \<Rightarrow> Vec3b"

definition set_at :: "Mat \<Rightarrow> int \<Rightarrow> int \<Rightarrow> Vec3b \<Rightarrow> Mat" where
  "set_at tags y x v = tags\<lparr>at_yx := (at_yx tags)(y := (at_yx tags y)(x := v))\<rparr>"

text \<open>\<open>Vec3BToUID\<close> of OpenCVUtil.h: the bytes as an unsigned 32-bit value, cast to \<open>int32_t\<close>.\<close>

definition Vec3BToUID :: "Vec3b \<Rightarrow> tag_id" where
  "Vec3BToUID t =
     (case t of (t0, t1, t2) \<Rightarrow>
        let B = (ucast t0 :: 32 word);
            G = (ucast t1 :: 32 word);
            R = (ucast t2 :: 32 word);
            tagVal = (push_bit 16 R) OR (push_bit 8 G) OR B
        in sint tagVal)"

text \<open>
  The three assignments \<open>tagVec[0] = tag & 0xFF\<close>, \<open>tagVec[1] = (tag >> 8) & 0xFF\<close>
  and \<open>tagVec[2] = (tag >> 16) & 0xFF\<close> of \<open>parse\<close>.
\<close>

definition tag_bytes :: "tag_id \<Rightarrow> Vec3b" where
  "tag_bytes t =
     (word_of_int (t AND 255), word_of_int (drop_bit 8 t AND 255),
      word_of_int (drop_bit 16 t AND 255))"

text \<open>The pixel positions \<open>(y, x)\<close> in the order of the two nested loops.\<close>

definition scan_order :: "Mat \<Rightarrow> (int \<times> int) list" where
  "scan_order tags = concat (map (\<lambda>y. map (\<lambda>x. (y, x)) [0..cols tags - 1]) [0..rows tags - 1])"

subsection \<open>parse\<close>

text \<open>
  The pixel loop of \<open>parse\<close> over the positions still to visit. A pixel with the
  label \<open>0xFFFFFF\<close> ends the function with \<open>false\<close>; the pixels visited before it
  stay rewritten and their regions stay in the table. Every other label is
  incremented and written back, and the position is appended to the region of the
  incremented label, which is created on its first pixel.
\<close>

fun parse_pixels ::
  "(int \<times> int) list \<Rightarrow> Mat \<Rightarrow> (tag_id \<times> Superpixel) list \<Rightarrow>
   error + (bool \<times> Mat \<times> (tag_id \<times> Superpixel) list)" where
  "parse_pixels [] tags objects = Inr (True, tags, objects)"
| "parse_pixels ((y, x) # rest) tags objects =
     (let tagVec = at_yx tags y x;
          tag0 = Vec3BToUID tagVec
      in if tag0 = 0xFFFFFF then Inr (False, tags, objects)
         else if \<not> tag0 < 0x00FFFFFF then Inl AssertionFailed
         else
           let tag1 = tag0 + 1;
               tags' = set_at tags y x (tag_bytes tag1);
               sp = (case map_of objects tag1 of
                       None \<Rightarrow> new_Superpixel tag1
                     | Some sp \<Rightarrow> sp)
           in if \<not> tag sp = tag1 then Inl AssertionFailed
              else parse_pixels rest tags' (AList.update tag1 (appendCoord sp x y) objects))"

subsection \<open>parseSuperpixelEdges\<close>

definition neighborOffsets :: "(int \<times> int) list" where
  "neighborOffsets =
     [(- 1, - 1), (0, - 1), (1, - 1), (- 1, 0), (1, 0), (- 1, 1), (0, 1), (1, 1)]"

text \<open>
  The loop over the eight offsets around \<open>(x, y)\<close>: a neighbor label that is in
  the image, differs from the center's and is not yet in \<open>neighborUIDsVec\<close> is
  appended to it.
\<close>

fun scan_offsets ::
  "Mat \<Rightarrow> int \<Rightarrow> int \<Rightarrow> tag_id \<Rightarrow> (int \<times> int) list \<Rightarrow> tag_id list \<Rightarrow> tag_id list" where
  "scan_offsets tags x y centerTag [] neighborUIDsVec = neighborUIDsVec"
| "scan_offsets tags x y centerTag ((dX, dY) # rest) neighborUIDsVec =
     (let nX = x + dX;
          nY = y + dY;
          foundNeighborUID =
            (if nX < 0 \<or> nX \<ge> cols tags then - 1
             else if nY < 0 \<or> nY \<ge> rows tags then - 1
             else Vec3BToUID (at_yx tags nY nX))
      in if foundNeighborUID = - 1 \<or> foundNeighborUID = centerTag
         then scan_offsets tags x y centerTag rest neighborUIDsVec
         else if foundNeighborUID \<in> set neighborUIDsVec
         then scan_offsets tags x y centerTag rest neighborUIDsVec
         else scan_offsets tags x y centerTag rest (neighborUIDsVec @ [foundNeighborUID]))"

text \<open>The loop over all pixels that fills \<open>tagToNeighborMap\<close>.\<close>

fun scan_centers ::
  "Mat \<Rightarrow> (int \<times> int) list \<Rightarrow> (tag_id \<rightharpoonup> tag_id list) \<Rightarrow> (tag_id \<rightharpoonup> tag_id list)" where
  "scan_centers tags [] tagToNeighborMap = tagToNeighborMap"
| "scan_centers tags ((y, x) # rest) tagToNeighborMap =
     (let centerTag = Vec3BToUID (at_yx tags y x);
          neighborUIDsVec = (case tagToNeighborMap centerTag of None \<Rightarrow> [] | Some v \<Rightarrow> v)
      in scan_centers tags rest
           (tagToNeighborMap(centerTag \<mapsto>
              scan_offsets tags x y centerTag neighborOffsets neighborUIDsVec)))"

text \<open>
  The loop over the active ids that stores each row in the edge table;
  \<open>numSuperpixels\<close> is \<open>superpixels.size()\<close>.
\<close>

fun store_rows ::
  "nat \<Rightarrow> tag_id list \<Rightarrow> (tag_id \<rightharpoonup> tag_id list) \<Rightarrow> SuperpixelEdgeTable \<Rightarrow>
   error + SuperpixelEdgeTable" where
  "store_rows numSuperpixels [] tagToNeighborMap et = Inr et"
| "store_rows numSuperpixels (t # rest) tagToNeighborMap et =
     (let neighborUIDsVec = (case tagToNeighborMap t of None \<Rightarrow> [] | Some v \<Rightarrow> v)
      in if numSuperpixels > 1 \<and> \<not> length neighborUIDsVec > 0 then Inl AssertionFailed
         else store_rows numSuperpixels rest tagToNeighborMap (setNeighbors et t neighborUIDsVec))"

definition parseSuperpixelEdges :: "Mat \<Rightarrow> SuperpixelImage \<Rightarrow> error + (bool \<times> SuperpixelImage)" where
  "parseSuperpixelEdges tags spImage =
     (let tagToNeighborMap = scan_centers tags (scan_order tags) Map.empty
      in case store_rows (length (superpixels spImage)) (superpixels spImage) tagToNeighborMap
                (edgeTable spImage) of
           Inl e \<Rightarrow> Inl e
         | Inr et \<Rightarrow> Inr (True, spImage\<lparr>edgeTable := et\<rparr>))"

text \<open>
  \<open>parse\<close> returns its verdict; the label image and the store are reference
  parameters and are returned beside it.
\<close>

definition parse :: "Mat \<Rightarrow> SuperpixelImage \<Rightarrow> error + (bool \<times> Mat \<times> SuperpixelImage)" where
  "parse tags spImage =
     (case parse_pixels (scan_order tags) tags (tagToSuperpixelMap spImage) of
        Inl e \<Rightarrow> Inl e
      | Inr (False, tags', objects) \<Rightarrow> Inr (False, tags', spImage\<lparr>tagToSuperpixelMap := objects\<rparr>)
      | Inr (True, tags', objects) \<Rightarrow>
          let superpixels' = sort (superpixels spImage @ map (\<lambda>(k, sp). tag sp) objects)
          in if \<not> length superpixels' = length objects then Inl AssertionFailed
             else
               case parseSuperpixelEdges tags'
                      (spImage\<lparr>tagToSuperpixelMap := objects, superpixels := superpixels'\<rparr>) of
                 Inl e \<Rightarrow> Inl e
               | Inr (worked, spImage') \<Rightarrow>
                   if \<not> worked then Inr (False, tags', spImage')
                   else Inr (True, tags', spImage'))"

section \<open>Invariants of the region store\<close>

text \<open>The row of an id in the adjacency table of a store.\<close>

definition neighbors_of :: "SuperpixelImage \<Rightarrow> tag_id \<Rightarrow> tag_id list" where
  "neighbors_of s t = getNeighbors (edgeTable s) t"

text \<open>The number of coordinates a store holds under an id; 0 for an absent id.\<close>

definition numCoords_of :: "SuperpixelImage \<Rightarrow> tag_id \<Rightarrow> nat" where
  "numCoords_of s t = (case getSuperpixelPtr s t of None \<Rightarrow> 0 | Some sp \<Rightarrow> length (coords sp))"

definition total_coords :: "SuperpixelImage \<Rightarrow> nat" where
  "total_coords s = sum_list (map (numCoords_of s) (superpixels s))"

text \<open>
  The adjacency property of the data model: among active ids adjacency is mutual,
  and no active id is in its own row.
\<close>

definition adjacency_ok :: "SuperpixelImage \<Rightarrow> bool" where
  "adjacency_ok s \<longleftrightarrow>
     (\<forall>X \<in> set (superpixels s). \<forall>Y \<in> set (superpixels s).
        (Y \<in> set (neighbors_of s X)) = (X \<in> set (neighbors_of s Y))) \<and>
     (\<forall>X \<in> set (superpixels s). X \<notin> set (neighbors_of s X))"

text \<open>
  The consistency that \<open>parse\<close> sets up and \<open>mergeEdge\<close> relies on: the active
  list is strictly ascending and lists exactly the keys of the object table, each
  object carries the id it is stored under, and each row of an active id is free of
  duplicates and of the id itself and names only active ids that name it back.
\<close>

definition wf_image :: "SuperpixelImage \<Rightarrow> bool" where
  "wf_image s \<longleftrightarrow>
     sorted (superpixels s) \<and> distinct (superpixels s) \<and>
     set (superpixels s) = set (map fst (tagToSuperpixelMap s)) \<and>
     (\<forall>k \<in> set (superpixels s).
        (case getSuperpixelPtr s k of None \<Rightarrow> False | Some sp \<Rightarrow> tag sp = k)) \<and>
     (\<forall>X \<in> set (superpixels s).
        distinct (neighbors_of s X) \<and> X \<notin> set (neighbors_of s X) \<and>
        (\<forall>Y \<in> set (neighbors_of s X).
           Y \<in> set (superpixels s) \<and> X \<in> set (neighbors_of s Y)))"

text \<open>
  The rows after the loop over the source's row \<open>ns\<close> in \<open>mergeEdge\<close>, from
  the rows \<open>nb\<close> before it.
\<close>

definition relinked :: "(tag_id \<Rightarrow> tag_id list) \<Rightarrow> tag_id \<Rightarrow> tag_id \<Rightarrow> tag_id list \<Rightarrow> tag_id \<Rightarrow> tag_id list" where
  "relinked nb srcTag dstTag ns X =
     (if X = dstTag then nb dstTag @ filter (\<lambda>N. N \<noteq> dstTag \<and> dstTag \<notin> set (nb N)) ns
      else if X \<in> set ns then
        filter (\<lambda>n. n \<noteq> srcTag) (nb X) @ (if dstTag \<in> set (nb X) then [] else [dstTag])
      else nb X)"

text \<open>
  The rows after \<open>mergeEdge\<close> has merged the region \<open>srcTag\<close> into \<open>dstTag\<close>,
  from the rows \<open>nb\<close> before: the source's row is gone, the destination loses the
  source and gains, in order, the source's neighbors it did not have, each neighbor
  of the source loses the source and gains the destination if it did not have it,
  and every other row is as before.
\<close>

definition merged_rows ::
  "(tag_id \<Rightarrow> tag_id list) \<Rightarrow> tag_id \<Rightarrow> tag_id \<Rightarrow> tag_id \<Rightarrow> tag_id list" where
  "merged_rows nb srcTag dstTag X =
     (if X = srcTag then []
      else if X = dstTag then
        filter (\<lambda>n. n \<noteq> srcTag) (nb dstTag) @
        filter (\<lambda>N. N \<noteq> dstTag \<and> dstTag \<notin> set (nb N)) (nb srcTag)
      else if X \<in> set (nb srcTag) then
        filter (\<lambda>n. n \<noteq> srcTag) (nb X) @ (if dstTag \<in> set (nb X) then [] else [dstTag])
      else nb X)"

section \<open>What parse computes\<close>

text \<open>The label of the pixel at position \<open>p = (y, x)\<close>, and the label \<open>parse\<close> rejects.\<close>

definition label_at :: "Mat \<Rightarrow> int \<times> int \<Rightarrow> tag_id" where
  "label_at tags p = Vec3BToUID (at_yx tags (fst p) (snd p))"

definition reserved_label :: tag_id where
  "reserved_label = 0xFFFFFF"

text \<open>
  The coordinates \<open>(x, y)\<close>, in visiting order, of the positions among \<open>ps\<close>
  whose label in \<open>tags\<close>, incremented, is \<open>t\<close>.
\<close>

definition coords_with_label :: "Mat \<Rightarrow> (int \<times> int) list \<Rightarrow> tag_id \<Rightarrow> Coord list" where
  "coords_with_label tags ps t =
     map (\<lambda>p. (snd p, fst p)) (filter (\<lambda>p. label_at tags p + 1 = t) ps)"

text \<open>
  The object under the id \<open>t\<close> after the pixel loop has visited \<open>ps\<close>, from the
  object \<open>old\<close> under \<open>t\<close> before.
\<close>

definition parsed_object ::
  "Mat \<Rightarrow> (int \<times> int) list \<Rightarrow> Superpixel option \<Rightarrow> tag_id \<Rightarrow> Superpixel option" where
  "parsed_object tags ps old t =
     (case old of
        None \<Rightarrow>
          if coords_with_label tags ps t = [] then None
          else Some ((new_Superpixel t)\<lparr>coords := coords_with_label tags ps t\<rparr>)
      | Some sp \<Rightarrow> Some (sp\<lparr>coords := coords sp @ coords_with_label tags ps t\<rparr>))"

text \<open>The position \<open>p = (y, x)\<close> lies in the image.\<close>

definition in_image :: "Mat \<Rightarrow> int \<times> int \<Rightarrow> bool" where
  "in_image tags p \<longleftrightarrow> 0 \<le> fst p \<and> fst p < rows tags \<and> 0 \<le> snd p \<and> snd p < cols tags"

text \<open>Two positions are 8-connected: they differ by one of \<open>neighborOffsets\<close>.\<close>

definition adjacent8 :: "int \<times> int \<Rightarrow> int \<times> int \<Rightarrow> bool" where
  "adjacent8 p q \<longleftrightarrow> (snd q - snd p, fst q - fst p) \<in> set neighborOffsets"

text \<open>The row a map from ids to rows holds for \<open>t\<close>; empty when it holds none.\<close>

definition row_of :: "(tag_id \<rightharpoonup> tag_id list) \<Rightarrow> tag_id \<Rightarrow> tag_id list" where
  "row_of m t = (case m t of None \<Rightarrow> [] | Some v \<Rightarrow> v)"

text \<open>
  The labels that the pixel at \<open>p\<close> contributes to the row of \<open>t\<close>: none unless
  \<open>p\<close> carries \<open>t\<close>, and then the other labels among its 8-connected pixels in the
  image.
\<close>

definition found_around :: "Mat \<Rightarrow> int \<times> int \<Rightarrow> tag_id \<Rightarrow> tag_id set" where
  "found_around tags p t =
     {u. label_at tags p = t \<and>
         (\<exists>q. in_image tags q \<and> adjacent8 p q \<and> u = label_at tags q \<and> u \<noteq> t)}"

text \<open>What a successful \<open>parse\<close> of an image into the empty store returns.\<close>

definition parsed :: "Mat \<Rightarrow> Mat \<Rightarrow> SuperpixelImage \<Rightarrow> bool" where
  "parsed tags tags' s' \<longleftrightarrow>
     rows tags' = rows tags \<and> cols tags' = cols tags \<and>
     (\<forall>y x. at_yx tags' y x =
        (if in_image tags (y, x) then tag_bytes (label_at tags (y, x) + 1) else at_yx tags y x)) \<and>
     (\<forall>p. in_image tags p \<longrightarrow> label_at tags' p = label_at tags p + 1) \<and>
     (\<forall>t. getSuperpixelPtr s' t = parsed_object tags (scan_order tags) None t) \<and>
     distinct (map fst (tagToSuperpixelMap s')) \<and>
     set (map fst (tagToSuperpixelMap s')) = (\<lambda>p. label_at tags p + 1) ` set (scan_order tags) \<and>
     superpixels s' = sort (map fst (tagToSuperpixelMap s')) \<and>
     (\<forall>t \<in> set (superpixels s').
        distinct (neighbors_of s' t) \<and>
        set (neighbors_of s' t) = (\<Union>p\<in>set (scan_order tags). found_around tags' p t))"


section \<open>Stores that the operations produce\<close>

text \<open>
  The stores reachable from a label image: the store a successful \<open>parse\<close> of
  the image into the empty store returns, and every store a successful
  \<open>mergeEdge\<close> returns from a reachable one.
\<close>

inductive reachable :: "Mat \<Rightarrow> SuperpixelImage \<Rightarrow> bool" for tags :: Mat where
  after_parse: "parse tags empty_SuperpixelImage = Inr (True, tags', s) \<Longrightarrow> reachable tags s"
| after_merge: "reachable tags s \<Longrightarrow> mergeEdge A B s = Inr s' \<Longrightarrow> reachable tags s'"

section \<open>Example stores\<close>

text \<open>
  The merge scenario of the spec: region 1 with 10 coordinates, region 2 with 3,
  and region 3, whose only neighbor is region 2.
\<close>

definition example_Superpixel :: "tag_id \<Rightarrow> nat \<Rightarrow> Superpixel" where
  "example_Superpixel t n =
     \<lparr>tag = t, coords = map (\<lambda>i. (int i, t)) [0..<n],
      mergedEdgeWeights = [], unmergedEdgeWeights = []\<rparr>"

definition merge_example :: SuperpixelImage where
  "merge_example =
     \<lparr>tagToSuperpixelMap =
        [(1, example_Superpixel 1 10), (2, example_Superpixel 2 3), (3, example_Superpixel 3 4)],
      superpixels = [1, 2, 3],
      edgeTable = \<lparr>neighbors = [1 \<mapsto> [2], 2 \<mapsto> [1, 3], 3 \<mapsto> [2]],
                   edgeStrengthMap = Map.empty\<rparr>\<rparr>"




text \<open>A label image of one row and two pixels with the labels 0 and 1.\<close>

definition example_tags :: Mat where
  "example_tags = \<lparr>rows = 1, cols = 2, at_yx = (\<lambda>y x. if x = 0 then (0, 0, 0) else (1, 0, 0))\<rparr>"

text \<open>The same image with the reserved label on its second pixel.\<close>

definition reserved_tags :: Mat where
  "reserved_tags =
     \<lparr>rows = 1, cols = 2, at_yx = (\<lambda>y x. if x = 0 then (0, 0, 0) else (255, 255, 255))\<rparr>"

section \<open>Merge strategies\<close>

subsection \<open>Sorting with a comparison function\<close>

text \<open>
  \<open>std::sort\<close> with a comparison function \<open>before\<close>. The library leaves open the
  order of elements that the function does not separate; the model keeps those in
  their order of arrival (an insertion sort), which is one of the permitted results.
\<close>

fun insert_by :: "('a \<Rightarrow> 'a \<Rightarrow> bool) \<Rightarrow> 'a \<Rightarrow> 'a list \<Rightarrow> 'a list" where
  "insert_by before x [] = [x]"
| "insert_by before x (y # ys) =
     (if before y x then y # insert_by before x ys else x # y # ys)"

definition sort_by :: "('a \<Rightarrow> 'a \<Rightarrow> bool) \<Rightarrow> 'a list \<Rightarrow> 'a list" where
  "sort_by before xs = foldr (insert_by before) xs []"

subsection \<open>sortSuperpixelsBySize\<close>

definition CompareSuperpixelSizeDecreasingFunc :: "Superpixel \<Rightarrow> Superpixel \<Rightarrow> bool" where
  "CompareSuperpixelSizeDecreasingFunc sp1 sp2 =
     (let sp1N = int (length (coords sp1)); sp2N = int (length (coords sp2))
      in if sp1N = sp2N then tag sp1 < tag sp2 else sp1N > sp2N)"

text \<open>The objects of a list of ids; the source follows each pointer unchecked.\<close>

fun superpixel_ptrs :: "SuperpixelImage \<Rightarrow> tag_id list \<Rightarrow> error + Superpixel list" where
  "superpixel_ptrs s [] = Inr []"
| "superpixel_ptrs s (t # rest) =
     (case getSuperpixelPtr s t of
        None \<Rightarrow> Inl NullDereference
      | Some sp \<Rightarrow>
          (case superpixel_ptrs s rest of
             Inl e \<Rightarrow> Inl e
           | Inr sps \<Rightarrow> Inr (sp # sps)))"

text \<open>
  Modelled from the spec: the strategies call a \<open>sortSuperpixelsBySize\<close> that
  returns the sorted ids, where the sources at hand hold the variant that sorts the
  active list in place. The spec has "\<open>sortedBySize()\<close>: ordered sequence of id,
  descending by coordinate count, ties broken by ascending id", which is the order
  of the comparison function of the in-place variant; the model sorts the objects
  of the active ids by that function and returns their ids.
\<close>

definition sortSuperpixelsBySize :: "SuperpixelImage \<Rightarrow> error + tag_id list" where
  "sortSuperpixelsBySize s =
     (case superpixel_ptrs s (superpixels s) of
        Inl e \<Rightarrow> Inl e
      | Inr sps \<Rightarrow> Inr (map tag (sort_by CompareSuperpixelSizeDecreasingFunc sps)))"

subsection \<open>The pass over the sorted regions\<close>

text \<open>
  The local state of \<open>mergeBackprojectSuperpixels\<close> and of
  \<open>mergeBredthFirstRecursive\<close>. \<open>is_done\<close> is the flag \<open>done\<close>, \<open>spIter\<close> the
  position of the iterator in \<open>sortedSuperpixels\<close>. The two tables are
  \<open>unordered_map<int32_t, bool>\<close>: \<open>mergesSinceLockClear\<close> is kept as the list
  of its entries, \<open>locked\<close> as a partial map. Reading \<open>locked[t]\<close> for an id
  without an entry creates the entry \<open>false\<close>.
\<close>

record traversal =
  is_done :: bool
  mergeIter :: int
  numLockClear :: int
  mergesSinceLockClear :: "(tag_id \<times> bool) list"
  locked :: "tag_id \<rightharpoonup> bool"
  sortedSuperpixels :: "tag_id list"
  spIter :: nat
  maxTag :: tag_id

text \<open>
  The loop "find next unlocked superpixel" of \<open>mergeBackprojectSuperpixels\<close>
  over the ids from the iterator on: an id without an object is locked on the way;
  the result is the first id that is not locked (or \<open>-1\<close>), the iterator past it,
  and the lock table.
\<close>

fun backproject_next_unlocked ::
  "SuperpixelImage \<Rightarrow> tag_id list \<Rightarrow> nat \<Rightarrow> (tag_id \<rightharpoonup> bool) \<Rightarrow>
   tag_id \<times> nat \<times> (tag_id \<rightharpoonup> bool)" where
  "backproject_next_unlocked s [] it lockedTable = (- 1, it, lockedTable)"
| "backproject_next_unlocked s (nextTag # rest) it lockedTable =
     (let lockedTable1 =
            (if getSuperpixelPtr s nextTag = None then lockedTable(nextTag \<mapsto> True)
             else lockedTable);
          lockedTable2 =
            (case lockedTable1 nextTag of
               None \<Rightarrow> lockedTable1(nextTag \<mapsto> False)
             | Some b \<Rightarrow> lockedTable1)
      in if lockedTable2 nextTag = Some True
         then backproject_next_unlocked s rest (it + 1) lockedTable2
         else (nextTag, it + 1, lockedTable2))"

text \<open>The same loop in \<open>mergeBredthFirstRecursive\<close>, which does not look at the objects.\<close>

fun bredthFirst_next_unlocked ::
  "tag_id list \<Rightarrow> nat \<Rightarrow> (tag_id \<rightharpoonup> bool) \<Rightarrow> tag_id \<times> nat \<times> (tag_id \<rightharpoonup> bool)" where
  "bredthFirst_next_unlocked [] it lockedTable = (- 1, it, lockedTable)"
| "bredthFirst_next_unlocked (nextTag # rest) it lockedTable =
     (let lockedTable2 =
            (case lockedTable nextTag of
               None \<Rightarrow> lockedTable(nextTag \<mapsto> False)
             | Some b \<Rightarrow> lockedTable)
      in if lockedTable2 nextTag = Some True
         then bredthFirst_next_unlocked rest (it + 1) lockedTable2
         else (nextTag, it + 1, lockedTable2))"

text \<open>The head of an iteration of \<open>while (!done)\<close>: the choice of \<open>maxTag\<close>.\<close>

definition backproject_select :: "SuperpixelImage \<Rightarrow> traversal \<Rightarrow> traversal" where
  "backproject_select s st =
     (if spIter st = length (sortedSuperpixels st) then st\<lparr>maxTag := - 1\<rparr>
      else
        case backproject_next_unlocked s (drop (spIter st) (sortedSuperpixels st))
               (spIter st) (locked st) of
          (t, it, lockedTable) \<Rightarrow> st\<lparr>maxTag := t, spIter := it, locked := lockedTable\<rparr>)"

definition bredthFirst_select :: "traversal \<Rightarrow> traversal" where
  "bredthFirst_select st =
     (if spIter st = length (sortedSuperpixels st) then st\<lparr>maxTag := - 1\<rparr>
      else
        case bredthFirst_next_unlocked (drop (spIter st) (sortedSuperpixels st))
               (spIter st) (locked st) of
          (t, it, lockedTable) \<Rightarrow> st\<lparr>maxTag := t, spIter := it, locked := lockedTable\<rparr>)"

text \<open>
  The loop over \<open>mergesSinceLockClear\<close> that erases the lock entry of each of its
  keys, where there is one.
\<close>

fun erase_locks :: "tag_id list \<Rightarrow> (tag_id \<rightharpoonup> bool) \<Rightarrow> (tag_id \<rightharpoonup> bool)" where
  "erase_locks [] lockedTable = lockedTable"
| "erase_locks (merged # rest) lockedTable =
     (if lockedTable merged = None then erase_locks rest lockedTable
      else erase_locks rest (lockedTable(merged := None)))"

text \<open>
  The branch \<open>if (maxTag == -1)\<close> of \<open>mergeBackprojectSuperpixels\<close>, up to its
  \<open>continue\<close>.
\<close>

definition backproject_all_locked :: "SuperpixelImage \<Rightarrow> traversal \<Rightarrow> error + traversal" where
  "backproject_all_locked s st =
     (if length (mergesSinceLockClear st) = 0 then Inr (st\<lparr>is_done := True\<rparr>)
      else
        case sortSuperpixelsBySize s of
          Inl e \<Rightarrow> Inl e
        | Inr sortedTags \<Rightarrow>
            Inr (st\<lparr>locked := erase_locks (map fst (mergesSinceLockClear st)) (locked st),
                    mergesSinceLockClear := [],
                    sortedSuperpixels := sortedTags,
                    spIter := 0,
                    numLockClear := numLockClear st + 1\<rparr>))"

text \<open>
  The same branch of \<open>mergeBredthFirstRecursive\<close>. It opens with
  \<open>if (1) { done = true; continue; }\<close> under the comment "Do not unlock and then
  rerun this logic once all superpixels are locked since the BFS will expand a blob
  out as much as it can be safely expanded"; the lock clearing written below that
  block is never reached.
\<close>

definition bredthFirst_all_locked :: "traversal \<Rightarrow> traversal" where
  "bredthFirst_all_locked st = st\<lparr>is_done := True\<rparr>"

text \<open>
  One iteration of \<open>while (!done)\<close> as far as the lock bookkeeping goes: either
  the branch above runs and the loop continues with its state, or a region was
  chosen and its expansion follows (which calls the back-projection, outside this
  model).
\<close>

datatype iteration = Continue traversal | Expand traversal

definition backproject_iteration :: "SuperpixelImage \<Rightarrow> traversal \<Rightarrow> error + iteration" where
  "backproject_iteration s st =
     (let st1 = backproject_select s st
      in if maxTag st1 = - 1
         then (case backproject_all_locked s st1 of
                 Inl e \<Rightarrow> Inl e
               | Inr st2 \<Rightarrow> Inr (Continue st2))
         else Inr (Expand st1))"

definition bredthFirst_iteration :: "traversal \<Rightarrow> iteration" where
  "bredthFirst_iteration st =
     (let st1 = bredthFirst_select st
      in if maxTag st1 = - 1 then Continue (bredthFirst_all_locked st1) else Expand st1)"

text \<open>
  A pass over \<open>merge_example\<close> that has come to its end after a merge into region
  1: regions 1, 2 and 3 are locked, and the id 7, of a region merged away since the
  list was sorted, has no lock yet. In \<open>bredthFirst_example\<close> that id is locked
  too.
\<close>

definition locked_example :: traversal where
  "locked_example =
     \<lparr>is_done = False, mergeIter = 1, numLockClear = 0,
      mergesSinceLockClear = [(1, True)],
      locked = [1 \<mapsto> True, 2 \<mapsto> True, 3 \<mapsto> True],
      sortedSuperpixels = [1, 7, 3, 2], spIter = 1, maxTag = 1\<rparr>"

definition bredthFirst_example :: traversal where
  "bredthFirst_example = locked_example\<lparr>locked := [1 \<mapsto> True, 2 \<mapsto> True, 3 \<mapsto> True, 7 \<mapsto> True]\<rparr>"

section \<open>Tiny-region cleanup\<close>

subsection \<open>Neighbor tuples\<close>

text \<open>
  \<open>CompareNeighborTuple\<close> is a triple of a \<open>double\<close> and two \<open>int32_t\<close>; the
  comparison value is modelled by the real number it denotes.
\<close>

type_synonym CompareNeighborTuple = "real \<times> int \<times> int"

definition CompareNeighborTupleFunc ::
  "CompareNeighborTuple \<Rightarrow> CompareNeighborTuple \<Rightarrow> bool" where
  "CompareNeighborTupleFunc elem1 elem2 =
     (let hcmp1 = fst elem1; hcmp2 = fst elem2
      in if hcmp1 = hcmp2
         then (let numPixels1 = fst (snd elem1); numPixels2 = fst (snd elem2)
               in numPixels1 > numPixels2)
         else hcmp1 < hcmp2)"

definition CompareNeighborTupleSortByDecreasingLargestNumCoordsFunc ::
  "CompareNeighborTuple \<Rightarrow> CompareNeighborTuple \<Rightarrow> bool" where
  "CompareNeighborTupleSortByDecreasingLargestNumCoordsFunc elem1 elem2 =
     (let numPixels1 = snd (snd elem1); numPixels2 = snd (snd elem2)
      in numPixels1 > numPixels2)"

text \<open>
  Modelled from the spec: \<open>getNeighborsSet\<close> belongs to the adjacency table, whose
  header is not part of the sources at hand. The spec has "\<open>neighbors(id)\<close>: set of
  id"; the model takes the ids of the row without repetition, in ascending order.
\<close>

definition getNeighborsSet :: "SuperpixelEdgeTable \<Rightarrow> tag_id \<Rightarrow> tag_id list" where
  "getNeighborsSet et t = sort (remdups (getNeighbors et t))"

subsection \<open>filterOutVeryLargeNeighbors\<close>

text \<open>The first loop: one tuple (unused, id, size) for each neighbor.\<close>

fun size_tuples :: "SuperpixelImage \<Rightarrow> tag_id list \<Rightarrow> error + CompareNeighborTuple list" where
  "size_tuples s [] = Inr []"
| "size_tuples s (neighborTag # rest) =
     (case getSuperpixelPtr s neighborTag of
        None \<Rightarrow> Inl AssertionFailed
      | Some sp \<Rightarrow>
          let numCoords = int (length (coords sp))
          in (case size_tuples s rest of
                Inl e \<Rightarrow> Inl e
              | Inr tuples \<Rightarrow> Inr ((0, neighborTag, numCoords) # tuples)))"

text \<open>The conversion of a float to \<open>int32_t\<close> drops the fraction.\<close>

definition float_to_int :: "real \<Rightarrow> int" where
  "float_to_int x = (if 0 \<le> x then \<lfloor>x\<rfloor> else \<lceil>x\<rceil>)"

text \<open>
  The loop \<open>while (1)\<close>: it leaves with the large neighbors found so far when one
  tuple is left or when the largest size is not above the limit, and otherwise moves
  the id of the first tuple to the large neighbors. \<open>sizesVec[0]\<close> is read
  unchecked.
\<close>

function very_large_loop ::
  "CompareNeighborTuple list \<Rightarrow> tag_id list \<Rightarrow> error + tag_id list" where
  "very_large_loop tuples largeNeighbors =
     (if length tuples = 1 then Inr largeNeighbors
      else
        let sizesVec = map (\<lambda>tuple. float32 (real_of_int (snd (snd tuple)))) tuples;
            mean = sample_mean sizesVec;
            stddev = sample_mean_delta_squared_div sizesVec mean
        in if sizesVec = [] then Inl OutOfRange
           else
             let maxSize = float_to_int (sizesVec ! 0);
                 stddevMin =
                   (if stddev < 1 then float32 (real_of_int maxSize)
                    else if stddev < float32 (real_of_int MaxSmallNumPixelsVal)
                    then float32 (real_of_int maxSize)
                    else fadd mean (fmul stddev (1 / 2)))
             in if float32 (real_of_int maxSize) > stddevMin
                then very_large_loop (tl tuples) (largeNeighbors @ [fst (snd (hd tuples))])
                else Inr largeNeighbors)"
  by pat_completeness auto

termination
  by (relation "measure (\<lambda>(tuples, largeNeighbors). length tuples)") auto

definition filterOutVeryLargeNeighbors :: "SuperpixelImage \<Rightarrow> tag_id \<Rightarrow> error + tag_id list" where
  "filterOutVeryLargeNeighbors s srcTag =
     (case size_tuples s (getNeighborsSet (edgeTable s) srcTag) of
        Inl e \<Rightarrow> Inl e
      | Inr tuples \<Rightarrow>
          very_large_loop
            (if length tuples > 1
             then sort_by CompareNeighborTupleSortByDecreasingLargestNumCoordsFunc tuples
             else tuples)
            [])"

subsection \<open>compareNeighborSuperpixels\<close>

text \<open>
  The loop over the neighbors of the region \<open>srcTag\<close>: a neighbor with an entry in the locked
  table, when one is passed, is skipped; each other one gives a tuple of its
  histogram distance to \<open>srcTag\<close>, its number of pixels and its id.
  \<open>fillMatrixFromCoords\<close> follows the pointer of the region unchecked. The
  histogram distance is computed by OpenCV from the pixels of the two regions; here
  it is the parameter \<open>compareHist\<close>.
\<close>

fun compare_tuples ::
  "(tag_id \<Rightarrow> tag_id \<Rightarrow> real) \<Rightarrow> SuperpixelImage \<Rightarrow> tag_id \<Rightarrow> (tag_id \<rightharpoonup> bool) option \<Rightarrow>
   tag_id list \<Rightarrow> error + CompareNeighborTuple list" where
  "compare_tuples compareHist s srcTag lockedTablePtr [] = Inr []"
| "compare_tuples compareHist s srcTag lockedTablePtr (neighborTag # rest) =
     (if (case lockedTablePtr of
            None \<Rightarrow> False
          | Some lockedTable \<Rightarrow> lockedTable neighborTag \<noteq> None)
      then compare_tuples compareHist s srcTag lockedTablePtr rest
      else
        case getSuperpixelPtr s neighborTag of
          None \<Rightarrow> Inl NullDereference
        | Some sp \<Rightarrow>
            let compar_bh = compareHist srcTag neighborTag
            in (case compare_tuples compareHist s srcTag lockedTablePtr rest of
                  Inl e \<Rightarrow> Inl e
                | Inr results \<Rightarrow>
                    Inr ((compar_bh, int (length (coords sp)), neighborTag) # results)))"

definition compareNeighborSuperpixels ::
  "(tag_id \<Rightarrow> tag_id \<Rightarrow> real) \<Rightarrow> SuperpixelImage \<Rightarrow> tag_id \<Rightarrow> (tag_id \<rightharpoonup> bool) option \<Rightarrow>
   error + CompareNeighborTuple list" where
  "compareNeighborSuperpixels compareHist s srcTag lockedTablePtr =
     (case getSuperpixelPtr s srcTag of
        None \<Rightarrow> Inl NullDereference
      | Some sp \<Rightarrow>
          (case compare_tuples compareHist s srcTag lockedTablePtr
                  (getNeighborsSet (edgeTable s) srcTag) of
             Inl e \<Rightarrow> Inl e
           | Inr results \<Rightarrow>
               Inr (if length results > 1 then sort_by CompareNeighborTupleFunc results
                    else results)))"

subsection \<open>mergeSmallSuperpixels\<close>

text \<open>The loop that continues a tie of the first two results as far as it goes.\<close>

fun still_tie :: "real \<Rightarrow> CompareNeighborTuple list \<Rightarrow> tag_id \<Rightarrow> tag_id" where
  "still_tie tie [] minNeighbor = minNeighbor"
| "still_tie tie (tuple # rest) minNeighbor =
     (if tie = fst tuple then still_tie tie rest (snd (snd tuple)) else minNeighbor)"

text \<open>
  The choice of the neighbor to merge with, from \<open>results[0]\<close>, which is read
  unchecked, to the end of the tie handling. \<open>tie\<close> is a float, the others are
  doubles.
\<close>

definition min_neighbor :: "CompareNeighborTuple list \<Rightarrow> error + tag_id" where
  "min_neighbor results =
     (case results of
        [] \<Rightarrow> Inl OutOfRange
      | minTuple # rest \<Rightarrow>
          (case rest of
             [] \<Rightarrow> Inr (snd (snd minTuple))
           | second # others \<Rightarrow>
               if fst minTuple = fst second
               then Inr (still_tie (float32 (fst minTuple)) others (snd (snd second)))
               else Inr (snd (snd minTuple))))"

text \<open>
  The body of the loop over the small regions from the call of
  \<open>filterOutVeryLargeNeighbors\<close> to the choice of \<open>minNeighbor\<close>: the large
  neighbors are entered into a fresh locked table, which is passed on only when it is
  not empty.
\<close>

definition small_merge_target ::
  "(tag_id \<Rightarrow> tag_id \<Rightarrow> real) \<Rightarrow> SuperpixelImage \<Rightarrow> tag_id \<Rightarrow> error + tag_id" where
  "small_merge_target compareHist s srcTag =
     (case filterOutVeryLargeNeighbors s srcTag of
        Inl e \<Rightarrow> Inl e
      | Inr largeNeighbors \<Rightarrow>
          let lockedTable = fold (\<lambda>neighborTag m. m(neighborTag \<mapsto> True)) largeNeighbors Map.empty;
              lockedPtr = (if length largeNeighbors > 0 then Some lockedTable else None)
          in (case compareNeighborSuperpixels compareHist s srcTag lockedPtr of
                Inl e \<Rightarrow> Inl e
              | Inr results \<Rightarrow> min_neighbor results))"

text \<open>
  One round of the loop over the small regions for the region \<open>srcTag\<close>: the store
  after it and whether the loop moves on to the next small region.
\<close>

definition small_merge_round ::
  "(tag_id \<Rightarrow> tag_id \<Rightarrow> real) \<Rightarrow> SuperpixelImage \<Rightarrow> tag_id \<Rightarrow>
   error + (SuperpixelImage \<times> bool)" where
  "small_merge_round compareHist s srcTag =
     (case getSuperpixelPtr s srcTag of
        None \<Rightarrow> Inr (s, True)
      | Some sp \<Rightarrow>
          if int (length (coords sp)) \<ge> MaxSmallNumPixelsVal then Inr (s, True)
          else
            case small_merge_target compareHist s srcTag of
              Inl e \<Rightarrow> Inl e
            | Inr minNeighbor \<Rightarrow>
                (case SuperpixelEdge srcTag minNeighbor of
                   (A, B) \<Rightarrow>
                     (case mergeEdge A B s of
                        Inl e \<Rightarrow> Inl e
                      | Inr s' \<Rightarrow>
                          (case getSuperpixelPtr s' srcTag of
                             None \<Rightarrow> Inr (s', True)
                           | Some sp' \<Rightarrow>
                               Inr (s', \<not> int (length (coords sp')) < MaxSmallNumPixelsVal)))))"

text \<open>
  A small region, 1, between a region of 10 coordinates and a region of 1010: the
  sizes of its neighbors have mean 510 and population standard deviation 500, and
  the limit for a large neighbor is 760. Region 4 has no neighbor.
\<close>

definition small_example :: SuperpixelImage where
  "small_example =
     \<lparr>tagToSuperpixelMap =
        [(1, example_Superpixel 1 3), (2, example_Superpixel 2 10),
         (3, example_Superpixel 3 1010), (4, example_Superpixel 4 2)],
      superpixels = [1, 2, 3, 4],
      edgeTable = \<lparr>neighbors = [1 \<mapsto> [2, 3], 2 \<mapsto> [1], 3 \<mapsto> [1]],
                   edgeStrengthMap = Map.empty\<rparr>\<rparr>"

section \<open>Properties of the rounding\<close>

text \<open>
  Rounding keeps the sign, never crosses a power of two, and leaves alone every
  number that has a 24-bit significand on the grid of its binade.
\<close>

lemma round_half_even_of_int [simp]: "round_half_even (of_int n) = n"
  by (simp add: round_half_even_def)

lemma round_half_even_ge: "of_int n \<le> r \<Longrightarrow> n \<le> round_half_even r"
proof -
  assume "of_int n \<le> r"
  then have "n \<le> \<lfloor>r\<rfloor>" by (simp add: le_floor_iff)
  then show ?thesis by (simp add: round_half_even_def Let_def)
qed

lemma round_half_even_le: "r \<le> of_int n \<Longrightarrow> round_half_even r \<le> n"
proof -
  assume a: "r \<le> of_int n"
  have f: "\<lfloor>r\<rfloor> \<le> n" using a by (simp add: floor_le_iff)
  show ?thesis
  proof (cases "\<lfloor>r\<rfloor> = n")
    case True
    then have "r = of_int n" using a by linarith
    then show ?thesis by simp
  next
    case False
    then have "\<lfloor>r\<rfloor> + 1 \<le> n" using f by simp
    then show ?thesis using f by (auto simp: round_half_even_def Let_def)
  qed
qed

lemma binade_spec:
  "e0 \<le> binade e0 n x \<and> binade e0 n x \<le> e0 + int n \<and>
   (binade e0 n x = e0 \<or> 2 powi (binade e0 n x) \<le> \<bar>x\<bar>) \<and>
   (binade e0 n x = e0 + int n \<or> \<bar>x\<bar> < 2 powi (binade e0 n x + 1))"
proof (induction n arbitrary: e0)
  case 0
  show ?case by simp
next
  case (Suc n)
  show ?case
  proof (cases "\<bar>x\<bar> < 2 powi (e0 + 1)")
    case True
    then show ?thesis by simp
  next
    case False
    have le: "2 powi (e0 + 1) \<le> \<bar>x\<bar>" using False by simp
    have mono: "e0 + 1 \<le> binade (e0 + 1) n x \<Longrightarrow> 2 powi (binade (e0 + 1) n x) \<le> \<bar>x\<bar> \<or> binade (e0 + 1) n x = e0 + 1"
      using Suc.IH [of "e0 + 1"] by blast
    from Suc.IH [of "e0 + 1"] False le show ?thesis
      by auto
  qed
qed

lemma float_exponent_range: "- 126 \<le> float_exponent x" "float_exponent x \<le> 127"
  using binade_spec [of "- 126" 253 x] by (simp_all add: float_exponent_def)

lemma float_exponent_lower: "float_exponent x = - 126 \<or> 2 powi (float_exponent x) \<le> \<bar>x\<bar>"
  using binade_spec [of "- 126" 253 x] unfolding float_exponent_def by blast

lemma float_exponent_upper: "float_exponent x = 127 \<or> \<bar>x\<bar> < 2 powi (float_exponent x + 1)"
  using binade_spec [of "- 126" 253 x] unfolding float_exponent_def by simp

lemma float_exponent_eq:
  assumes "- 126 \<le> e" "e \<le> 127" "2 powi e \<le> \<bar>x\<bar>" "\<bar>x\<bar> < 2 powi (e + 1)"
  shows "float_exponent x = e"
proof -
  let ?f = "float_exponent x"
  have "\<not> ?f < e"
  proof
    assume l: "?f < e"
    then have "?f \<noteq> 127" using assms(2) by simp
    then have "\<bar>x\<bar> < 2 powi (?f + 1)" using float_exponent_upper [of x] by simp
    moreover have "(2::real) powi (?f + 1) \<le> 2 powi e"
      using l by (intro power_int_increasing) simp_all
    ultimately show False using assms(3) by linarith
  qed
  moreover have "\<not> e < ?f"
  proof
    assume l: "e < ?f"
    then have "?f \<noteq> - 126" using assms(1) by simp
    then have "2 powi ?f \<le> \<bar>x\<bar>" using float_exponent_lower [of x] by simp
    moreover have "(2::real) powi (e + 1) \<le> 2 powi ?f"
      using l by (intro power_int_increasing) simp_all
    ultimately show False using assms(4) by linarith
  qed
  ultimately show ?thesis by simp
qed

lemma float_exponent_subnormal:
  assumes "\<bar>x\<bar> < 2 powi (- 125)"
  shows "float_exponent x = - 126"
proof (rule ccontr)
  assume n: "float_exponent x \<noteq> - 126"
  then have "2 powi (float_exponent x) \<le> \<bar>x\<bar>" using float_exponent_lower [of x] by simp
  moreover have "(2::real) powi (- 125) \<le> 2 powi (float_exponent x)"
    using n float_exponent_range(1) [of x] by (intro power_int_increasing) simp_all
  ultimately show False using assms by linarith
qed

lemma float32_eval:
  assumes "- 126 \<le> e" "e \<le> 127" "2 powi e \<le> \<bar>x\<bar>" "\<bar>x\<bar> < 2 powi (e + 1)"
  shows "float32 x = of_int (round_half_even (x / 2 powi (e - 23))) * 2 powi (e - 23)"
  using float_exponent_eq [OF assms] by (simp add: float32_def Let_def)

lemma round_half_even_0 [simp]: "round_half_even 0 = 0"
  using round_half_even_of_int [of 0] by simp

lemma float32_0 [simp]: "float32 0 = 0"
  by (simp add: float32_def)

lemma float32_nonneg: "0 \<le> x \<Longrightarrow> 0 \<le> float32 x"
proof -
  assume x: "0 \<le> x"
  have "0 \<le> x / 2 powi (float_exponent x - 23)" using x by simp
  then have "0 \<le> round_half_even (x / 2 powi (float_exponent x - 23))"
    using round_half_even_ge [of 0] by simp
  then show ?thesis by (simp add: float32_def Let_def)
qed


lemma power_int_2_le_D: "(2::real) powi a \<le> 2 powi b \<Longrightarrow> a \<le> b"
proof (rule ccontr)
  assume l: "(2::real) powi a \<le> 2 powi b" and n: "\<not> a \<le> b"
  then have "(2::real) powi b < 2 powi a"
    by (intro power_int_strict_increasing) simp_all
  then show False using l by simp
qed

lemma power_int_2_less_D: "(2::real) powi a < 2 powi b \<Longrightarrow> a < b"
proof (rule ccontr)
  assume l: "(2::real) powi a < 2 powi b" and n: "\<not> a < b"
  then have "(2::real) powi b \<le> 2 powi a"
    by (intro power_int_increasing) simp_all
  then show False using l by simp
qed

lemma power_int_2_nonneg_int: "0 \<le> j \<Longrightarrow> (2::real) powi j = of_int (2 ^ nat j)"
  by (simp add: power_int_def)

lemma float32_ge_pow2:
  assumes "- 126 \<le> k" "k \<le> 127" "2 powi k \<le> x"
  shows "2 powi k \<le> float32 x"
proof -
  let ?e = "float_exponent x"
  have x: "0 < x" "\<bar>x\<bar> = x"
    using assms(3) zero_less_power_int [of "2::real" k] by linarith+
  have ke: "k \<le> ?e"
  proof (cases "?e = 127")
    case True
    then show ?thesis using assms(2) by simp
  next
    case False
    then have "x < 2 powi (?e + 1)" using float_exponent_upper [of x] x by simp
    then have "(2::real) powi k < 2 powi (?e + 1)" using assms(3) by linarith
    then show ?thesis using power_int_2_less_D by fastforce
  qed
  have ex: "2 powi ?e \<le> x"
  proof (cases "?e = - 126")
    case True
    then have "k = ?e" using ke assms(1) by simp
    then show ?thesis using assms(3) by simp
  next
    case False
    then show ?thesis using float_exponent_lower [of x] x by simp
  qed
  have "x / 2 powi (?e - 23) \<ge> 2 powi ?e / 2 powi (?e - 23)"
    using ex by (simp add: divide_right_mono)
  moreover have "(2::real) powi ?e / 2 powi (?e - 23) = of_int (2 ^ 23)"
    by (simp add: power_int_diff)
  ultimately have "2 ^ 23 \<le> round_half_even (x / 2 powi (?e - 23))"
    using round_half_even_ge [of "2 ^ 23" "x / 2 powi (?e - 23)"] by simp
  then have "of_int (2 ^ 23) * 2 powi (?e - 23) \<le> float32 x"
    unfolding float32_def Let_def
    by (intro mult_right_mono) (simp_all add: of_int_le_iff [symmetric] del: of_int_le_iff)
  moreover have "of_int (2 ^ 23) * (2::real) powi (?e - 23) = 2 powi ?e"
    by (simp add: power_int_diff)
  moreover have "(2::real) powi k \<le> 2 powi ?e"
    using ke by (intro power_int_increasing) simp_all
  ultimately show ?thesis by linarith
qed

lemma float32_nonpos: "x \<le> 0 \<Longrightarrow> float32 x \<le> 0"
proof -
  assume x: "x \<le> 0"
  have "x / 2 powi (float_exponent x - 23) \<le> 0" using x by (simp add: divide_le_0_iff)
  then have "round_half_even (x / 2 powi (float_exponent x - 23)) \<le> 0"
    using round_half_even_le [of _ 0] by simp
  then show ?thesis by (simp add: float32_def Let_def mult_le_0_iff)
qed

lemma float32_le_pow2:
  assumes "- 126 \<le> k" "x \<le> 2 powi k"
  shows "float32 x \<le> 2 powi k"
proof (cases "x \<le> 0")
  case True
  then have "float32 x \<le> 0" by (rule float32_nonpos)
  moreover have "(0::real) < 2 powi k" by simp
  ultimately show ?thesis by linarith
next
  case False
  let ?e = "float_exponent x"
  have x: "0 < x" "\<bar>x\<bar> = x" using False by simp_all
  have ek: "?e \<le> k"
  proof (cases "?e = - 126")
    case True
    then show ?thesis using assms(1) by simp
  next
    case False
    then have "2 powi ?e \<le> x" using float_exponent_lower [of x] x by simp
    then have "(2::real) powi ?e \<le> 2 powi k" using assms(2) by linarith
    then show ?thesis by (rule power_int_2_le_D)
  qed
  have j: "0 \<le> k - ?e + 23" using ek by simp
  have "x / 2 powi (?e - 23) \<le> 2 powi k / 2 powi (?e - 23)"
    using assms(2) by (simp add: divide_right_mono)
  moreover have "(2::real) powi k / 2 powi (?e - 23) = 2 powi (k - ?e + 23)"
    by (simp add: power_int_diff [symmetric] algebra_simps)
  ultimately have "x / 2 powi (?e - 23) \<le> of_int (2 ^ nat (k - ?e + 23))"
    using power_int_2_nonneg_int [OF j] by simp
  then have "round_half_even (x / 2 powi (?e - 23)) \<le> 2 ^ nat (k - ?e + 23)"
    by (rule round_half_even_le)
  then have "float32 x \<le> of_int (2 ^ nat (k - ?e + 23)) * 2 powi (?e - 23)"
    unfolding float32_def Let_def
    by (intro mult_right_mono) (simp_all add: of_int_le_iff [symmetric] del: of_int_le_iff)
  moreover have "of_int (2 ^ nat (k - ?e + 23)) * (2::real) powi (?e - 23) = 2 powi k"
    using power_int_2_nonneg_int [OF j, symmetric]
    by (simp add: power_int_add [symmetric])
  ultimately show ?thesis by linarith
qed

lemma float32_dyadic:
  assumes "\<bar>m\<bar> < 2 ^ 24" "- 149 \<le> k"
  shows "float32 (of_int m * 2 powi k) = of_int m * 2 powi k"
proof (cases "m = 0")
  case True
  then show ?thesis by simp
next
  case False
  let ?x = "of_int m * (2::real) powi k"
  let ?e = "float_exponent ?x"
  have ax: "\<bar>?x\<bar> = of_int \<bar>m\<bar> * 2 powi k"
    by (simp add: abs_mult)
  have "of_int \<bar>m\<bar> < (2::real) ^ 24"
    using assms(1) by (metis of_int_less_iff of_int_numeral of_int_power)
  then have "\<bar>?x\<bar> < 2 ^ 24 * 2 powi k"
    unfolding ax by (intro mult_strict_right_mono) simp_all
  then have up: "\<bar>?x\<bar> < 2 powi (24 + k)"
    by (simp add: power_int_add)
  have ek: "?e - 23 \<le> k"
  proof (cases "?e = - 126")
    case True
    then show ?thesis using assms(2) by simp
  next
    case False
    then have "2 powi ?e \<le> \<bar>?x\<bar>" using float_exponent_lower [of ?x] by simp
    then have "(2::real) powi ?e < 2 powi (24 + k)" using up by linarith
    then have "?e < 24 + k" by (rule power_int_2_less_D)
    then show ?thesis by simp
  qed
  have j: "0 \<le> k - (?e - 23)" using ek by simp
  have "?x / 2 powi (?e - 23) = of_int m * 2 powi (k - (?e - 23))"
    by (simp add: power_int_diff)
  also have "\<dots> = of_int (m * 2 ^ nat (k - (?e - 23)))"
    using power_int_2_nonneg_int [OF j] by simp
  finally have "round_half_even (?x / 2 powi (?e - 23)) = m * 2 ^ nat (k - (?e - 23))"
    by (simp only: round_half_even_of_int)
  then have "float32 ?x = of_int (m * 2 ^ nat (k - (?e - 23))) * 2 powi (?e - 23)"
    by (simp add: float32_def Let_def)
  also have "\<dots> = of_int m * (2 powi (k - (?e - 23)) * 2 powi (?e - 23))"
    using power_int_2_nonneg_int [OF j] by simp
  also have "\<dots> = ?x"
    by (simp add: power_int_add [symmetric])
  finally show ?thesis .
qed

lemma float32_exact:
  "x = of_int m * 2 powi k \<Longrightarrow> \<bar>m\<bar> < 2 ^ 24 \<Longrightarrow> - 149 \<le> k \<Longrightarrow> float32 x = x"
  using float32_dyadic [of m k] by simp


section \<open>Properties of the statistical bound checker\<close>

lemma sample_mean_ge_pow2:
  "- 126 \<le> k \<Longrightarrow> k \<le> 127 \<Longrightarrow> 2 powi k \<le> sum_list vs / real (length vs) \<Longrightarrow>
   2 powi k \<le> sample_mean vs"
  unfolding sample_mean_def by (rule float32_ge_pow2)

lemma stddev_nonneg: "0 \<le> sample_mean_delta_squared_div vs m"
proof -
  have "0 \<le> sum_list (map (\<lambda>v. (v - m) * (v - m)) vs)"
    by (rule sum_list_nonneg) auto
  then show ?thesis
    unfolding sample_mean_delta_squared_div_def
    by (intro float32_nonneg) simp
qed

text \<open>
  The check accepts whenever some power of two lies between the step from the last
  weight to the candidate and the exact mean of the deltas: rounding moves neither
  across it, and the deviation only raises the limit.
\<close>

lemma bound_verdict_accepts:
  assumes "weights \<noteq> []" "- 126 \<le> k" "k \<le> 127"
    and "2 powi k \<le> sum_list useDeltas / real (length useDeltas)"
    and "c - last weights \<le> 2 powi k"
  shows "bound_verdict weights useDeltas c = Inr (True, weights)"
proof -
  let ?m = "sample_mean useDeltas"
  let ?sd = "sample_mean_delta_squared_div useDeltas ?m"
  have m: "2 powi k \<le> ?m" using assms(2-4) by (rule sample_mean_ge_pow2)
  have "0 \<le> ?sd * 2" using stddev_nonneg [of useDeltas ?m] by simp
  then have "0 \<le> fmul ?sd 2" unfolding fmul_def by (rule float32_nonneg)
  then have "2 powi k \<le> ?m + fmul ?sd 2" using m by linarith
  then have u: "2 powi k \<le> fadd ?m (fmul ?sd 2)"
    unfolding fadd_def using assms(2,3) by (intro float32_ge_pow2)
  have l: "weights ! (length weights - 1) = last weights"
    using assms(1) by (simp add: last_conv_nth)
  have "fsub c (last weights) \<le> 2 powi k"
    unfolding fsub_def using assms(2,5) by (intro float32_le_pow2)
  then have "\<not> fsub c (last weights) > fadd ?m (fmul ?sd 2)" using u by linarith
  then show ?thesis
    using assms(1) unfolding bound_verdict_def Let_def l by simp
qed

lemma float32_values:
  "float32 (1 / 2) = 1 / 2" "float32 (1 / 8) = 1 / 8" "float32 (1 / 16) = 1 / 16"
  "float32 (3 / 8) = 3 / 8" "float32 (- (3 / 8)) = - (3 / 8)"
proof -
  show "float32 (1 / 2) = 1 / 2" by (rule float32_exact [of _ 1 "- 1"]) simp_all
  show "float32 (1 / 8) = 1 / 8" by (rule float32_exact [of _ 1 "- 3"]) simp_all
  show "float32 (1 / 16) = 1 / 16" by (rule float32_exact [of _ 1 "- 4"]) simp_all
  show "float32 (3 / 8) = 3 / 8" by (rule float32_exact [of _ 3 "- 3"]) simp_all
  show "float32 (- (3 / 8)) = - (3 / 8)" by (rule float32_exact [of _ "- 3" "- 3"]) simp_all
qed

lemma history_3:
  "pos_sample_within_bound [1 / 2, 1 / 8, 1 / 4] (3 / 8) = Inr (True, [1 / 2, 1 / 8, 1 / 4])"
proof -
  have "bound_verdict [1 / 2, 1 / 8, 1 / 4] [3 / 8, 1 / 8] (3 / 8) = Inr (True, [1 / 2, 1 / 8, 1 / 4])"
    by (rule bound_verdict_accepts [where k = "- 2"]) simp_all
  then show ?thesis
    by (simp add: pos_sample_within_bound_def float_diffs_def fsub_def fmul_def float32_values)
qed

lemma history_4:
  "pos_sample_within_bound [1 / 2, 1 / 8, 1 / 4, 3 / 8] (7 / 16) =
   Inr (True, [1 / 2, 1 / 8, 1 / 4, 3 / 8])"
proof -
  have "bound_verdict [1 / 2, 1 / 8, 1 / 4, 3 / 8] [3 / 8, 1 / 8, 1 / 8] (7 / 16) =
      Inr (True, [1 / 2, 1 / 8, 1 / 4, 3 / 8])"
    by (rule bound_verdict_accepts [where k = "- 3"]) simp_all
  then show ?thesis
    by (simp add: pos_sample_within_bound_def float_diffs_def fsub_def fmul_def float32_values)
qed

text \<open>
  Claim C4. The caller builds the history 1/2, 1/8, 1/4, 3/8, 7/16 out of five
  weights that the check accepts one after the other. On that history the check
  gives no verdict on any candidate: three of its deltas are positive, no weight
  exceeds the first one, and the assertion that the increasing weights are not empty
  fails.
\<close>

theorem pos_sample_within_bound_assertion:
  "histWeights_after [] (1 / 2) = Inr [1 / 2] \<and>
   histWeights_after [1 / 2] (1 / 8) = Inr [1 / 2, 1 / 8] \<and>
   histWeights_after [1 / 2, 1 / 8] (1 / 4) = Inr [1 / 2, 1 / 8, 1 / 4] \<and>
   histWeights_after [1 / 2, 1 / 8, 1 / 4] (3 / 8) = Inr [1 / 2, 1 / 8, 1 / 4, 3 / 8] \<and>
   histWeights_after [1 / 2, 1 / 8, 1 / 4, 3 / 8] (7 / 16) =
     Inr [1 / 2, 1 / 8, 1 / 4, 3 / 8, 7 / 16] \<and>
   pos_sample_within_bound [1 / 2, 1 / 8, 1 / 4, 3 / 8, 7 / 16] c = Inl AssertionFailed"
proof -
  have short: "histWeights_after [] (1 / 2) = Inr [1 / 2]"
      "histWeights_after [1 / 2] (1 / 8) = Inr [1 / 2, 1 / 8]"
      "histWeights_after [1 / 2, 1 / 8] (1 / 4) = Inr [1 / 2, 1 / 8, 1 / 4]"
    by (simp_all add: histWeights_after_def pos_sample_within_bound_def)
  have long: "histWeights_after [1 / 2, 1 / 8, 1 / 4] (3 / 8) = Inr [1 / 2, 1 / 8, 1 / 4, 3 / 8]"
      "histWeights_after [1 / 2, 1 / 8, 1 / 4, 3 / 8] (7 / 16) =
         Inr [1 / 2, 1 / 8, 1 / 4, 3 / 8, 7 / 16]"
    by (simp_all add: histWeights_after_def history_3 history_4)
  have "pos_sample_within_bound [1 / 2, 1 / 8, 1 / 4, 3 / 8, 7 / 16] c = Inl AssertionFailed"
    by (simp add: pos_sample_within_bound_def float_diffs_def fsub_def fmul_def float32_values)
  then show ?thesis using short long by simp
qed

text \<open>
  Claim C5. A history of at most two weights is accepted, whatever the candidate,
  unless it is a single weight above 0.5; that history is rejected. The history is
  left as it was.
\<close>

theorem pos_sample_within_bound_short:
  "length ws \<le> 2 \<Longrightarrow>
   pos_sample_within_bound ws c = Inr (\<not> (length ws = 1 \<and> ws ! 0 > 1 / 2), ws)"
  by (simp add: pos_sample_within_bound_def)

theorem pos_sample_within_bound_short_witness:
  "length [1 / 4, 3 / 4 :: real] \<le> 2 \<and>
   pos_sample_within_bound [1 / 4, 3 / 4] 5 = Inr (True, [1 / 4, 3 / 4])"
  using pos_sample_within_bound_short [of "[1 / 4, 3 / 4]" 5]
  by simp

section \<open>Reading the adjacency table\<close>

lemma getNeighbors_eraseEdgeStrength [simp]:
  "getNeighbors (eraseEdgeStrength et k) = getNeighbors et"
  by (rule ext) (simp add: getNeighbors_def eraseEdgeStrength_def)

lemma getNeighbors_setNeighbors [simp]:
  "getNeighbors (setNeighbors et t row) = (getNeighbors et)(t := row)"
  by (rule ext) (simp add: getNeighbors_def setNeighbors_def)

lemma getNeighbors_removeNeighbors [simp]:
  "getNeighbors (removeNeighbors et t) = (getNeighbors et)(t := [])"
  by (rule ext) (simp add: getNeighbors_def removeNeighbors_def)

section \<open>Properties of parse\<close>

subsection \<open>Labels and their bytes\<close>

lemma tagVal_take_bit:
  fixes t0 t1 t2 :: "8 word"
  shows "take_bit 24 ((push_bit 16 (ucast t2 :: 32 word)) OR (push_bit 8 (ucast t1)) OR ucast t0) =
     (push_bit 16 (ucast t2 :: 32 word)) OR (push_bit 8 (ucast t1)) OR ucast t0"
  by (rule bit_word_eqI) (auto simp: bit_simps dest: bit_imp_le_length)

lemma sint_small: "uint (w :: 32 word) < 2 ^ 24 \<Longrightarrow> sint w = uint w"
proof -
  assume "uint w < 2 ^ 24"
  then have "uint w < 2 ^ 31" by (rule less_trans) simp
  moreover have "- (2 ^ 31) \<le> uint w" by (rule order_trans [of _ 0]) simp_all
  ultimately have "signed_take_bit 31 (uint w) = uint w"
    by (simp add: signed_take_bit_int_eq_self_iff)
  then show ?thesis by (simp add: sint_uint)
qed

lemma Vec3BToUID_range: "0 \<le> Vec3BToUID v \<and> Vec3BToUID v < 2 ^ 24"
proof -
  obtain t0 t1 t2 where v: "v = (t0, t1, t2)" by (cases v) auto
  let ?w = "(push_bit 16 (ucast t2 :: 32 word)) OR (push_bit 8 (ucast t1)) OR ucast t0"
  have "?w = take_bit 24 ?w" using tagVal_take_bit [of t2 t1 t0] by simp
  then have u: "uint ?w < 2 ^ 24"
    by (metis (no_types, lifting) take_bit_int_less_exp unsigned_take_bit_eq)
  then have "sint ?w = uint ?w" by (rule sint_small)
  then show ?thesis using u by (simp add: Vec3BToUID_def v Let_def)
qed

lemma bit_small_int:
  fixes t :: int
  assumes "0 \<le> t" "t < 2 ^ 24" "bit t n"
  shows "n < 24"
proof (rule ccontr)
  assume "\<not> n < 24"
  then have "24 \<le> n" by simp
  have "take_bit 24 t = t" using assms(1,2) by (simp add: take_bit_int_eq_self)
  then have "bit (take_bit 24 t) n" using assms(3) by simp
  then show False using \<open>24 \<le> n\<close> by (simp add: bit_take_bit_iff)
qed

lemma Vec3BToUID_tag_bytes: "0 \<le> t \<Longrightarrow> t < 2 ^ 24 \<Longrightarrow> Vec3BToUID (tag_bytes t) = t"
proof -
  assume t: "0 \<le> t" "t < 2 ^ 24"
  let ?w = "(push_bit 16 (ucast (word_of_int (drop_bit 16 t AND 255) :: 8 word) :: 32 word)) OR (push_bit 8 (ucast (word_of_int (drop_bit 8 t AND 255) :: 8 word))) OR ucast (word_of_int (t AND 255) :: 8 word)"
  have m: "(255 :: int) = mask 8" by (simp add: mask_eq_exp_minus_1)
  have "?w = word_of_int t"
  proof (rule bit_word_eqI)
    fix n assume n: "n < LENGTH(32)"
    have hi: "bit t n \<Longrightarrow> n < 24" by (rule bit_small_int [OF t])
    consider "n < 8" | "8 \<le> n" "n < 16" | "16 \<le> n" "n < 24" | "24 \<le> n" by linarith
    then show "bit ?w n = bit (word_of_int t :: 32 word) n"
    proof cases
      case 1
      then show ?thesis using n by (auto simp: bit_simps m dest: bit_imp_le_length)
    next
      case 2
      then show ?thesis using n by (auto simp: bit_simps m dest: bit_imp_le_length)
    next
      case 3
      then show ?thesis using n by (auto simp: bit_simps m dest: bit_imp_le_length)
    next
      case 4
      then show ?thesis using n hi by (auto simp: bit_simps m dest: bit_imp_le_length)
    qed
  qed
  moreover have "sint (word_of_int t :: 32 word) = t"
  proof -
    have "t < 2 ^ 31" using t(2) by (rule less_trans) simp
    moreover have "- (2 ^ 31) \<le> t" using t(1) by (rule order_trans [rotated]) simp
    ultimately have "signed_take_bit 31 t = t"
      by (simp add: signed_take_bit_int_eq_self_iff)
    then show ?thesis by (simp add: sint_sbintrunc')
  qed
  ultimately show ?thesis by (simp add: Vec3BToUID_def tag_bytes_def Let_def)
qed

subsection \<open>The pixel loop\<close>

lemma label_at_range: "0 \<le> label_at tags p" "label_at tags p < 2 ^ 24"
  using Vec3BToUID_range [of "at_yx tags (fst p) (snd p)"] by (simp_all add: label_at_def)

lemma label_at_set_at:
  "label_at (set_at tags y x v) p = (if p = (y, x) then Vec3BToUID v else label_at tags p)"
  by (cases p) (auto simp: label_at_def set_at_def)

lemma coords_with_label_cong:
  "(\<And>p. p \<in> set ps \<Longrightarrow> label_at tags' p = label_at tags p) \<Longrightarrow>
   coords_with_label tags' ps t = coords_with_label tags ps t"
  unfolding coords_with_label_def by (rule arg_cong [where f = "map _"], rule filter_cong) auto

lemma parsed_object_cong:
  assumes "\<And>p. p \<in> set ps \<Longrightarrow> label_at tags' p = label_at tags p"
  shows "parsed_object tags' ps old t = parsed_object tags ps old t"
proof -
  have "coords_with_label tags' ps t = coords_with_label tags ps t"
    using assms by (rule coords_with_label_cong)
  then show ?thesis by (cases old) (simp_all add: parsed_object_def)
qed

lemma coords_with_label_Cons:
  "coords_with_label tags ((y, x) # rest) t =
     (if Vec3BToUID (at_yx tags y x) + 1 = t then (x, y) # coords_with_label tags rest t
      else coords_with_label tags rest t)"
  by (simp add: coords_with_label_def label_at_def)

lemma coords_with_label_Nil [simp]: "coords_with_label tags [] t = []"
  by (simp add: coords_with_label_def)

lemma parse_pixels_ok:
  assumes "distinct ps" "\<forall>p\<in>set ps. label_at tags p \<noteq> reserved_label"
    and "\<forall>k sp. map_of m k = Some sp \<longrightarrow> tag sp = k"
  shows "\<exists>tags' m'. parse_pixels ps tags m = Inr (True, tags', m') \<and>
    rows tags' = rows tags \<and> cols tags' = cols tags \<and>
    (\<forall>y x. at_yx tags' y x =
       (if (y, x) \<in> set ps then tag_bytes (label_at tags (y, x) + 1) else at_yx tags y x)) \<and>
    (\<forall>t. map_of m' t = parsed_object tags ps (map_of m t) t) \<and>
    (distinct (map fst m) \<longrightarrow> distinct (map fst m')) \<and>
    set (map fst m') = set (map fst m) \<union> (\<lambda>p. label_at tags p + 1) ` set ps"
  using assms
proof (induction ps arbitrary: tags m)
  case Nil
  then show ?case by (auto simp: parsed_object_def split: option.splits)
next
  case (Cons p rest)
  obtain y x where p: "p = (y, x)" by (cases p) auto
  let ?l = "Vec3BToUID (at_yx tags y x)"
  have ll: "label_at tags p = ?l" by (simp add: label_at_def p)
  let ?t1 = "?l + 1"
  let ?tags1 = "set_at tags y x (tag_bytes ?t1)"
  let ?sp = "case map_of m ?t1 of None \<Rightarrow> new_Superpixel ?t1 | Some sp \<Rightarrow> sp"
  let ?m1 = "AList.update ?t1 (appendCoord ?sp x y) m"
  have l: "?l \<noteq> 0xFFFFFF" "?l < 0xFFFFFF"
    using Cons.prems(2) label_at_range [of tags p] by (auto simp: reserved_label_def ll)
  have tsp: "tag ?sp = ?t1"
    using Cons.prems(3) by (auto simp: new_Superpixel_def split: option.splits)
  have step: "parse_pixels (p # rest) tags m = parse_pixels rest ?tags1 ?m1"
    using l tsp by (simp add: p Let_def)
  have same: "\<And>q. q \<in> set rest \<Longrightarrow> label_at ?tags1 q = label_at tags q"
    using Cons.prems(1) by (auto simp: label_at_set_at p)
  have ih1: "distinct rest" using Cons.prems(1) by simp
  have ih2: "\<forall>q\<in>set rest. label_at ?tags1 q \<noteq> reserved_label"
    using Cons.prems(2) same by simp
  have ih3: "\<forall>k sp. map_of ?m1 k = Some sp \<longrightarrow> tag sp = k"
    using Cons.prems(3) tsp by (auto simp: update_conv' appendCoord_def)
  from Cons.IH [OF ih1 ih2 ih3]
  obtain tags' m' where r: "parse_pixels rest ?tags1 ?m1 = Inr (True, tags', m')"
    and dims: "rows tags' = rows ?tags1" "cols tags' = cols ?tags1"
    and px: "\<forall>y' x'. at_yx tags' y' x' =
       (if (y', x') \<in> set rest then tag_bytes (label_at ?tags1 (y', x') + 1) else at_yx ?tags1 y' x')"
    and obj: "\<forall>t. map_of m' t = parsed_object ?tags1 rest (map_of ?m1 t) t"
    and dis: "distinct (map fst ?m1) \<longrightarrow> distinct (map fst m')"
    and keys: "set (map fst m') = set (map fst ?m1) \<union> (\<lambda>p. label_at ?tags1 p + 1) ` set rest"
    by blast
  have cw: "\<And>t. coords_with_label ?tags1 rest t = coords_with_label tags rest t"
    using same by (rule coords_with_label_cong)
  have c1: "rows tags' = rows tags \<and> cols tags' = cols tags"
    using dims by (simp add: set_at_def)
  have c2: "\<forall>y' x'. at_yx tags' y' x' =
       (if (y', x') \<in> set (p # rest) then tag_bytes (label_at tags (y', x') + 1) else at_yx tags y' x')"
    using px same ll by (auto simp: p set_at_def)
  have obj': "\<And>t. map_of m' t = parsed_object tags rest (map_of ?m1 t) t"
    using obj parsed_object_cong [of rest ?tags1 tags, OF same] by simp
  have c3: "\<forall>t. map_of m' t = parsed_object tags (p # rest) (map_of m t) t"
  proof
    fix t
    show "map_of m' t = parsed_object tags (p # rest) (map_of m t) t"
    proof (cases "t = ?t1")
      case True
      then show ?thesis
        unfolding obj' p
        by (auto simp: parsed_object_def update_conv' coords_with_label_Cons appendCoord_def
            new_Superpixel_def split: option.splits)
    next
      case False
      then show ?thesis
        unfolding obj' p
        by (auto simp: parsed_object_def update_conv' coords_with_label_Cons split: option.splits)
    qed
  qed
  have c4: "distinct (map fst m) \<longrightarrow> distinct (map fst m')"
    using dis by (simp add: distinct_update)
  have c5: "set (map fst m') = set (map fst m) \<union> (\<lambda>p. label_at tags p + 1) ` set (p # rest)"
    using keys same ll by (auto simp: dom_update)
  show ?case unfolding step using r c1 c2 c3 c4 c5 by blast
qed

lemma set_scan_order: "set (scan_order tags) = {p. in_image tags p}"
  by (auto simp: scan_order_def in_image_def)

lemma distinct_grid:
  "distinct xs \<Longrightarrow> distinct ys \<Longrightarrow> distinct (concat (map (\<lambda>y. map (\<lambda>x. (y, x)) xs) ys))"
  by (induction ys) (auto simp: distinct_map inj_on_def)

lemma distinct_scan_order: "distinct (scan_order tags)"
  unfolding scan_order_def by (rule distinct_grid) simp_all

lemma length_grid: "length (concat (map (\<lambda>y. map (\<lambda>x. (y, x)) xs) ys)) = length ys * length xs"
  by (induction ys) auto

lemma length_scan_order: "length (scan_order tags) = nat (rows tags) * nat (cols tags)"
  unfolding scan_order_def length_grid by simp

lemma parse_pixels_append:
  "parse_pixels (ps @ qs) tags m =
     (case parse_pixels ps tags m of
        Inr (True, tags', m') \<Rightarrow> parse_pixels qs tags' m'
      | r \<Rightarrow> r)"
proof (induction ps tags m rule: parse_pixels.induct)
  case (1 tags objects)
  then show ?case by simp
next
  case (2 y x rest tags objects)
  then show ?case by (simp add: Let_def)
qed

text \<open>A reserved label ends the loop at its first occurrence.\<close>

lemma parse_pixels_reserved:
  assumes "distinct ps" "\<exists>p\<in>set ps. label_at tags p = reserved_label"
    and "\<forall>k sp. map_of m k = Some sp \<longrightarrow> tag sp = k"
  shows "\<exists>pre q post tags' m'. ps = pre @ q # post \<and> label_at tags q = reserved_label \<and>
      (\<forall>p\<in>set pre. label_at tags p \<noteq> reserved_label) \<and>
      parse_pixels ps tags m = Inr (False, tags', m') \<and>
      rows tags' = rows tags \<and> cols tags' = cols tags \<and>
      (\<forall>y x. at_yx tags' y x =
         (if (y, x) \<in> set pre then tag_bytes (label_at tags (y, x) + 1) else at_yx tags y x))"
proof -
  from split_list_first_prop [OF assms(2)]
  obtain pre q post where ps: "ps = pre @ q # post" and q: "label_at tags q = reserved_label"
    and pre: "\<forall>p\<in>set pre. label_at tags p \<noteq> reserved_label" by blast
  have dpre: "distinct pre" and qpre: "q \<notin> set pre" using assms(1) ps by auto
  from parse_pixels_ok [OF dpre pre assms(3)]
  obtain tags' m' where r: "parse_pixels pre tags m = Inr (True, tags', m')"
    and dims: "rows tags' = rows tags" "cols tags' = cols tags"
    and px: "\<forall>y x. at_yx tags' y x =
       (if (y, x) \<in> set pre then tag_bytes (label_at tags (y, x) + 1) else at_yx tags y x)"
    by blast
  obtain y x where qq: "q = (y, x)" by (cases q) auto
  have "label_at tags' q = reserved_label"
    using q qpre px by (simp add: label_at_def qq)
  then have "parse_pixels (q # post) tags' m' = Inr (False, tags', m')"
    by (simp add: qq label_at_def reserved_label_def)
  then have "parse_pixels ps tags m = Inr (False, tags', m')"
    by (simp add: ps parse_pixels_append r)
  then show ?thesis using ps q pre dims px by blast
qed

subsection \<open>The edge scan\<close>

lemma scan_offsets_set:
  "set (scan_offsets tags x y c offs vec) =
     set vec \<union> {u. \<exists>(dX, dY) \<in> set offs. in_image tags (y + dY, x + dX) \<and>
                    u = label_at tags (y + dY, x + dX) \<and> u \<noteq> c}"
proof (induction offs arbitrary: vec)
  case Nil
  then show ?case by simp
next
  case (Cons o1 offs)
  obtain dX dY where o1: "o1 = (dX, dY)" by (cases o1) auto
  have nn: "label_at tags (y + dY, x + dX) \<noteq> - 1"
    using label_at_range(1) [of tags "(y + dY, x + dX)"] by simp
  show ?case
    using nn unfolding o1
    by (auto simp: Cons.IH Let_def in_image_def label_at_def)
qed

lemma scan_offsets_distinct:
  "distinct vec \<Longrightarrow> distinct (scan_offsets tags x y c offs vec)"
proof (induction offs arbitrary: vec)
  case Nil
  then show ?case by simp
next
  case (Cons o1 offs)
  obtain dX dY where o1: "o1 = (dX, dY)" by (cases o1) auto
  show ?case using Cons.prems unfolding o1 by (simp add: Let_def Cons.IH)
qed

lemma scan_offsets_neighborOffsets:
  "set (scan_offsets tags x y c neighborOffsets vec) =
     set vec \<union> {u. \<exists>q. in_image tags q \<and> adjacent8 (y, x) q \<and> u = label_at tags q \<and> u \<noteq> c}"
proof -
  have "{u. \<exists>(dX, dY) \<in> set neighborOffsets. in_image tags (y + dY, x + dX) \<and>
                    u = label_at tags (y + dY, x + dX) \<and> u \<noteq> c} =
        {u. \<exists>q. in_image tags q \<and> adjacent8 (y, x) q \<and> u = label_at tags q \<and> u \<noteq> c}"
    (is "?A = ?B")
  proof (intro set_eqI iffI)
    fix u assume "u \<in> ?A"
    then obtain dX dY where d: "(dX, dY) \<in> set neighborOffsets"
      "in_image tags (y + dY, x + dX)" "u = label_at tags (y + dY, x + dX)" "u \<noteq> c"
      by blast
    have "adjacent8 (y, x) (y + dY, x + dX)" using d(1) by (simp add: adjacent8_def)
    then show "u \<in> ?B" using d by blast
  next
    fix u assume "u \<in> ?B"
    then obtain q where q: "in_image tags q" "adjacent8 (y, x) q" "u = label_at tags q" "u \<noteq> c"
      by blast
    let ?dX = "snd q - x" and ?dY = "fst q - y"
    have "(?dX, ?dY) \<in> set neighborOffsets" using q(2) by (simp add: adjacent8_def)
    moreover have "q = (y + ?dY, x + ?dX)" by simp
    ultimately show "u \<in> ?A" using q by (metis (mono_tags, lifting) case_prodI mem_Collect_eq)
  qed
  then show ?thesis by (simp add: scan_offsets_set)
qed

lemma scan_centers_rows:
  assumes "\<forall>t. distinct (row_of tnm t)"
  shows "(\<forall>t. distinct (row_of (scan_centers tags ps tnm) t)) \<and>
    (\<forall>t. set (row_of (scan_centers tags ps tnm) t) =
       set (row_of tnm t) \<union> (\<Union>p\<in>set ps. found_around tags p t))"
  using assms
proof (induction ps arbitrary: tnm)
  case Nil
  then show ?case by simp
next
  case (Cons p ps)
  obtain y x where p: "p = (y, x)" by (cases p) auto
  let ?c = "Vec3BToUID (at_yx tags y x)"
  have c: "label_at tags (y, x) = ?c" by (simp add: label_at_def)
  let ?vec = "scan_offsets tags x y ?c neighborOffsets (row_of tnm ?c)"
  let ?tnm1 = "tnm(?c \<mapsto> ?vec)"
  have step: "scan_centers tags (p # ps) tnm = scan_centers tags ps ?tnm1"
    by (simp add: p Let_def row_of_def)
  have r1: "\<And>t. row_of ?tnm1 t = (if t = ?c then ?vec else row_of tnm t)"
    by (simp add: row_of_def)
  have d1: "\<forall>t. distinct (row_of ?tnm1 t)"
    using Cons.prems by (simp add: r1 scan_offsets_distinct)
  note ih = Cons.IH [OF d1]
  have s1: "\<And>t. set (row_of ?tnm1 t) = set (row_of tnm t) \<union> found_around tags p t"
    unfolding r1 p found_around_def c
    by (auto simp: scan_offsets_neighborOffsets)
  have "\<forall>t. set (row_of (scan_centers tags ps ?tnm1) t) =
       set (row_of tnm t) \<union> (\<Union>p'\<in>set (p # ps). found_around tags p' t)"
  proof
    fix t
    have "set (row_of (scan_centers tags ps ?tnm1) t) =
        set (row_of ?tnm1 t) \<union> (\<Union>p'\<in>set ps. found_around tags p' t)"
      using ih by blast
    then show "set (row_of (scan_centers tags ps ?tnm1) t) =
       set (row_of tnm t) \<union> (\<Union>p'\<in>set (p # ps). found_around tags p' t)"
      unfolding s1 by (simp add: Un_assoc)
  qed
  then show ?case unfolding step using ih by blast
qed

lemma store_rows_eq:
  assumes "n > 1 \<longrightarrow> (\<forall>t\<in>set ts. row_of tnm t \<noteq> [])"
  shows "\<exists>et'. store_rows n ts tnm et = Inr et' \<and>
     getNeighbors et' = (\<lambda>t. if t \<in> set ts then row_of tnm t else getNeighbors et t)"
  using assms
proof (induction ts arbitrary: et)
  case Nil
  then show ?case by simp
next
  case (Cons t ts)
  have ok: "\<not> (n > 1 \<and> \<not> length (row_of tnm t) > 0)" using Cons.prems by auto
  have "n > 1 \<longrightarrow> (\<forall>t\<in>set ts. row_of tnm t \<noteq> [])" using Cons.prems by simp
  from Cons.IH [OF this, of "setNeighbors et t (row_of tnm t)"]
  obtain et' where "store_rows n ts tnm (setNeighbors et t (row_of tnm t)) = Inr et'"
    "getNeighbors et' = (\<lambda>u. if u \<in> set ts then row_of tnm u
         else getNeighbors (setNeighbors et t (row_of tnm t)) u)" by blast
  then show ?case using ok by (auto simp: Let_def row_of_def [symmetric] fun_eq_iff)
qed

subsection \<open>Two labels in an image meet at some pixel\<close>

lemma walk_up:
  fixes f :: "int \<Rightarrow> bool"
  assumes "a \<le> b" "f a" "\<not> f b"
  shows "\<exists>i. a \<le> i \<and> i < b \<and> f i \<and> \<not> f (i + 1)"
proof (rule ccontr)
  assume no: "\<not> (\<exists>i. a \<le> i \<and> i < b \<and> f i \<and> \<not> f (i + 1))"
  have "a \<le> k \<Longrightarrow> k \<le> b \<longrightarrow> f k" for k
  proof (induction k rule: int_ge_induct)
    case base
    then show ?case using assms(2) by simp
  next
    case (step i)
    then show ?case using no by auto
  qed
  then show False using assms(1,3) by blast
qed

lemma walk_down:
  fixes f :: "int \<Rightarrow> bool"
  assumes "b \<le> a" "f a" "\<not> f b"
  shows "\<exists>i. b < i \<and> i \<le> a \<and> f i \<and> \<not> f (i - 1)"
proof -
  have "\<exists>i. - a \<le> i \<and> i < - b \<and> f (- i) \<and> \<not> f (- (i + 1))"
    using assms by (intro walk_up [of "- a" "- b" "\<lambda>i. f (- i)"]) simp_all
  then obtain i where "- a \<le> i" "i < - b" "f (- i)" "\<not> f (- (i + 1))" by blast
  moreover have "- (i + 1) = - i - 1" by simp
  ultimately have "b < - i \<and> - i \<le> a \<and> f (- i) \<and> \<not> f (- i - 1)" by simp
  then show ?thesis by blast
qed

lemma walk:
  fixes f :: "int \<Rightarrow> bool"
  assumes "f a" "\<not> f b"
  shows "\<exists>i d. (d = 1 \<or> d = - 1) \<and> min a b \<le> i \<and> i \<le> max a b \<and>
            min a b \<le> i + d \<and> i + d \<le> max a b \<and> f i \<and> \<not> f (i + d)"
proof (cases "a \<le> b")
  case True
  from walk_up [OF True assms] obtain i where "a \<le> i" "i < b" "f i" "\<not> f (i + 1)" by blast
  then show ?thesis using True by (intro exI [of _ i] exI [of _ 1]) auto
next
  case False
  then have "b \<le> a" by simp
  from walk_down [OF this assms] obtain i where "b < i" "i \<le> a" "f i" "\<not> f (i - 1)" by blast
  then show ?thesis using False by (intro exI [of _ i] exI [of _ "- 1"]) auto
qed

lemma neighborOffsets_iff:
  fixes dx dy :: int
  shows "(dx, dy) \<in> set neighborOffsets \<longleftrightarrow> \<bar>dx\<bar> \<le> 1 \<and> \<bar>dy\<bar> \<le> 1 \<and> (dx \<noteq> 0 \<or> dy \<noteq> 0)"
proof
  assume "(dx, dy) \<in> set neighborOffsets"
  then show "\<bar>dx\<bar> \<le> 1 \<and> \<bar>dy\<bar> \<le> 1 \<and> (dx \<noteq> 0 \<or> dy \<noteq> 0)"
    unfolding neighborOffsets_def by auto
next
  assume a: "\<bar>dx\<bar> \<le> 1 \<and> \<bar>dy\<bar> \<le> 1 \<and> (dx \<noteq> 0 \<or> dy \<noteq> 0)"
  then have "dx = - 1 \<or> dx = 0 \<or> dx = 1" "dy = - 1 \<or> dy = 0 \<or> dy = 1" by arith+
  then show "(dx, dy) \<in> set neighborOffsets"
    using a unfolding neighborOffsets_def by auto
qed

lemma adjacent8_iff:
  "adjacent8 p q \<longleftrightarrow> \<bar>snd q - snd p\<bar> \<le> 1 \<and> \<bar>fst q - fst p\<bar> \<le> 1 \<and> p \<noteq> q"
  unfolding adjacent8_def neighborOffsets_iff by (cases p; cases q) auto

lemma adjacent8_sym: "adjacent8 p q \<Longrightarrow> adjacent8 q p"
  unfolding adjacent8_iff by (cases p; cases q) auto

lemma exists_boundary:
  assumes p1: "in_image tags p1" "label_at tags p1 = t"
    and p2: "in_image tags p2" "label_at tags p2 \<noteq> t"
  shows "\<exists>p q. in_image tags p \<and> in_image tags q \<and> adjacent8 p q \<and>
           label_at tags p = t \<and> label_at tags q \<noteq> t"
proof -
  obtain y1 x1 where 1: "p1 = (y1, x1)" by (cases p1) auto
  obtain y2 x2 where 2: "p2 = (y2, x2)" by (cases p2) auto
  show ?thesis
  proof (cases "label_at tags (y1, x2) = t")
    case False
    from walk [of "\<lambda>x. label_at tags (y1, x) = t" x1 x2] p1(2) False 1
    obtain i d where d: "d = 1 \<or> d = - 1" and i: "min x1 x2 \<le> i" "i \<le> max x1 x2"
      "min x1 x2 \<le> i + d" "i + d \<le> max x1 x2"
      and l: "label_at tags (y1, i) = t" "label_at tags (y1, i + d) \<noteq> t"
      by auto
    have "in_image tags (y1, i)" "in_image tags (y1, i + d)"
      using p1(1) p2(1) i by (auto simp: in_image_def 1 2)
    moreover have "adjacent8 (y1, i) (y1, i + d)"
      using d by (auto simp: adjacent8_iff)
    ultimately show ?thesis using l by blast
  next
    case True
    from walk [of "\<lambda>y. label_at tags (y, x2) = t" y1 y2] p2(2) True 2
    obtain i d where d: "d = 1 \<or> d = - 1" and i: "min y1 y2 \<le> i" "i \<le> max y1 y2"
      "min y1 y2 \<le> i + d" "i + d \<le> max y1 y2"
      and l: "label_at tags (i, x2) = t" "label_at tags (i + d, x2) \<noteq> t"
      by auto
    have "in_image tags (i, x2)" "in_image tags (i + d, x2)"
      using p1(1) p2(1) i by (auto simp: in_image_def 1 2)
    moreover have "adjacent8 (i, x2) (i + d, x2)"
      using d by (auto simp: adjacent8_iff)
    ultimately show ?thesis using l by blast
  qed
qed

subsection \<open>parse as a whole\<close>

text \<open>The labels of the rewritten image.\<close>

lemma label_after_rewrite:
  assumes "label_at tags p \<noteq> reserved_label"
  shows "Vec3BToUID (tag_bytes (label_at tags p + 1)) = label_at tags p + 1"
proof -
  have "0 \<le> label_at tags p" "label_at tags p < 2 ^ 24" by (rule label_at_range)+
  then have "0 \<le> label_at tags p + 1" "label_at tags p + 1 < 2 ^ 24"
    using assms by (simp_all add: reserved_label_def)
  then show ?thesis by (rule Vec3BToUID_tag_bytes)
qed

lemma parse_success:
  assumes ok: "\<forall>p\<in>set (scan_order tags). label_at tags p \<noteq> reserved_label"
  shows "\<exists>tags' s'. parse tags empty_SuperpixelImage = Inr (True, tags', s') \<and> parsed tags tags' s'"
proof -
  let ?ps = "scan_order tags"
  have e: "\<forall>k sp. map_of ([] :: (tag_id \<times> Superpixel) list) k = Some sp \<longrightarrow> tag sp = k" by simp
  from parse_pixels_ok [OF distinct_scan_order ok e]
  obtain tags' m' where r: "parse_pixels ?ps tags [] = Inr (True, tags', m')"
    and dims: "rows tags' = rows tags" "cols tags' = cols tags"
    and px: "\<forall>y x. at_yx tags' y x =
       (if (y, x) \<in> set ?ps then tag_bytes (label_at tags (y, x) + 1) else at_yx tags y x)"
    and obj: "\<forall>t. map_of m' t = parsed_object tags ?ps None t"
    and dis: "distinct (map fst m')"
    and keys: "set (map fst m') = (\<lambda>p. label_at tags p + 1) ` set ?ps"
    by auto
  have so: "scan_order tags' = ?ps" by (simp add: scan_order_def dims)
  have lab: "\<And>p. in_image tags p \<Longrightarrow> label_at tags' p = label_at tags p + 1"
  proof -
    fix p assume p: "in_image tags p"
    then have "p \<in> set ?ps" by (simp add: set_scan_order)
    then have "label_at tags p \<noteq> reserved_label" using ok by blast
    from label_after_rewrite [OF this] show "label_at tags' p = label_at tags p + 1"
      using px p by (cases p) (simp add: label_at_def set_scan_order)
  qed
  have tagkey: "\<And>k sp. (k, sp) \<in> set m' \<Longrightarrow> tag sp = k"
  proof -
    fix k sp assume "(k, sp) \<in> set m'"
    then have "map_of m' k = Some sp" using dis by simp
    then have "parsed_object tags ?ps None k = Some sp" using obj by simp
    then show "tag sp = k"
      by (auto simp: parsed_object_def new_Superpixel_def split: if_splits)
  qed
  have tk: "map (\<lambda>(k, sp). tag sp) m' = map fst m'"
    by (rule map_cong) (auto dest: tagkey)
  let ?sps = "sort (map fst m')"
  let ?s1 = "empty_SuperpixelImage\<lparr>tagToSuperpixelMap := m', superpixels := ?sps\<rparr>"
  let ?tnm = "scan_centers tags' ?ps Map.empty"
  have rows: "\<forall>t. distinct (row_of ?tnm t)"
    "\<forall>t. set (row_of ?tnm t) = (\<Union>p\<in>set ?ps. found_around tags' p t)"
    using scan_centers_rows [of Map.empty tags' ?ps] by (simp_all add: row_of_def)
  have nonempty: "length ?sps > 1 \<longrightarrow> (\<forall>t\<in>set ?sps. row_of ?tnm t \<noteq> [])"
  proof (intro impI ballI)
    fix t assume many: "length ?sps > 1" and t: "t \<in> set ?sps"
    have dsps: "distinct ?sps" using dis by simp
    obtain t2 where t2: "t2 \<in> set ?sps" "t2 \<noteq> t"
    proof -
      have "card (set ?sps) = length ?sps" using dsps by (rule distinct_card)
      then have "card (set ?sps) > 1" using many by simp
      have "\<not> set ?sps \<subseteq> {t}"
      proof
        assume "set ?sps \<subseteq> {t}"
        then have "card (set ?sps) \<le> card {t}" by (intro card_mono) simp_all
        then show False using \<open>card (set ?sps) > 1\<close> by simp
      qed
      then show thesis using that by auto
    qed
    obtain p1 where p1: "in_image tags p1" "label_at tags p1 + 1 = t"
      using t keys by (auto simp: set_scan_order)
    obtain p2 where p2: "in_image tags p2" "label_at tags p2 + 1 = t2"
      using t2 keys by (auto simp: set_scan_order)
    have i1: "in_image tags' p1" "in_image tags' p2"
      using p1 p2 dims by (simp_all add: in_image_def)
    have "label_at tags' p1 = t" "label_at tags' p2 \<noteq> t"
      using lab p1 p2 t2 by auto
    from exists_boundary [OF i1(1) this(1) i1(2) this(2)]
    obtain p q where pq: "in_image tags' p" "in_image tags' q" "adjacent8 p q"
      "label_at tags' p = t" "label_at tags' q \<noteq> t" by blast
    have "label_at tags' q \<in> found_around tags' p t"
      unfolding found_around_def using pq by blast
    moreover have "p \<in> set ?ps"
      using pq(1) dims by (simp add: set_scan_order in_image_def)
    ultimately have "label_at tags' q \<in> (\<Union>p\<in>set ?ps. found_around tags' p t)" by blast
    then have "label_at tags' q \<in> set (row_of ?tnm t)" using rows(2) by simp
    then show "row_of ?tnm t \<noteq> []" by auto
  qed
  from store_rows_eq [OF nonempty, of empty_SuperpixelEdgeTable]
  obtain et' where st: "store_rows (length ?sps) ?sps ?tnm empty_SuperpixelEdgeTable = Inr et'"
    and g: "getNeighbors et' = (\<lambda>t. if t \<in> set ?sps then row_of ?tnm t
         else getNeighbors empty_SuperpixelEdgeTable t)" by blast
  let ?s' = "?s1\<lparr>edgeTable := et'\<rparr>"
  have pe: "parseSuperpixelEdges tags' ?s1 = Inr (True, ?s')"
    using st by (simp add: parseSuperpixelEdges_def so empty_SuperpixelImage_def)
  have res: "parse tags empty_SuperpixelImage = Inr (True, tags', ?s')"
    using r pe by (simp add: parse_def empty_SuperpixelImage_def tk)
  have "parsed tags tags' ?s'"
    unfolding parsed_def
    using dims px lab obj dis keys rows g
    by (auto simp: set_scan_order getSuperpixelPtr_def neighbors_of_def)
  then show ?thesis using res by blast
qed

lemma parsed_wf:
  assumes "parsed tags tags' s'"
  shows "wf_image s'"
proof -
  let ?ps = "scan_order tags"
  let ?m = "tagToSuperpixelMap s'"
  from assms have dims: "rows tags' = rows tags" "cols tags' = cols tags"
    and lab: "\<And>p. in_image tags p \<Longrightarrow> label_at tags' p = label_at tags p + 1"
    and obj: "\<And>t. getSuperpixelPtr s' t = parsed_object tags ?ps None t"
    and dis: "distinct (map fst ?m)"
    and keys: "set (map fst ?m) = (\<lambda>p. label_at tags p + 1) ` set ?ps"
    and sps: "superpixels s' = sort (map fst ?m)"
    and rows: "\<And>t. t \<in> set (superpixels s') \<Longrightarrow> distinct (neighbors_of s' t) \<and>
        set (neighbors_of s' t) = (\<Union>p\<in>set ?ps. found_around tags' p t)"
    unfolding parsed_def by blast+
  have im: "\<And>p. in_image tags' p = in_image tags p" by (simp add: in_image_def dims)
  have active: "\<And>p. in_image tags p \<Longrightarrow> label_at tags' p \<in> set (superpixels s')"
    using keys lab by (auto simp: sps set_scan_order)
  have 1: "sorted (superpixels s')" "distinct (superpixels s')"
    using dis by (simp_all add: sps)
  have 2: "set (superpixels s') = set (map fst ?m)" by (simp add: sps)
  have 3: "\<forall>k \<in> set (superpixels s').
        (case getSuperpixelPtr s' k of None \<Rightarrow> False | Some sp \<Rightarrow> tag sp = k)"
  proof
    fix k assume "k \<in> set (superpixels s')"
    then obtain p where "p \<in> set ?ps" "label_at tags p + 1 = k" using keys 2 by auto
    then have "coords_with_label tags ?ps k \<noteq> []"
      by (auto simp: coords_with_label_def filter_empty_conv)
    then show "case getSuperpixelPtr s' k of None \<Rightarrow> False | Some sp \<Rightarrow> tag sp = k"
      by (simp add: obj parsed_object_def new_Superpixel_def)
  qed
  have 4: "\<forall>X \<in> set (superpixels s').
        distinct (neighbors_of s' X) \<and> X \<notin> set (neighbors_of s' X) \<and>
        (\<forall>Y \<in> set (neighbors_of s' X). Y \<in> set (superpixels s') \<and> X \<in> set (neighbors_of s' Y))"
  proof (intro ballI conjI)
    fix X assume X: "X \<in> set (superpixels s')"
    show "distinct (neighbors_of s' X)" using rows [OF X] by blast
    show "X \<notin> set (neighbors_of s' X)" using rows [OF X] by (auto simp: found_around_def)
    fix Y assume "Y \<in> set (neighbors_of s' X)"
    then obtain p q where p: "p \<in> set ?ps" "label_at tags' p = X"
      and q: "in_image tags' q" "adjacent8 p q" "Y = label_at tags' q" "Y \<noteq> X"
      using rows [OF X] by (auto simp: found_around_def)
    have qi: "in_image tags q" using q(1) im by simp
    show Y: "Y \<in> set (superpixels s')" using active [OF qi] q(3) by simp
    have "in_image tags' p" using p(1) im by (simp add: set_scan_order)
    then have "label_at tags' q = Y \<and>
        (\<exists>qa. in_image tags' qa \<and> adjacent8 q qa \<and> X = label_at tags' qa \<and> X \<noteq> Y)"
      using p(2) q(3,4) adjacent8_sym [OF q(2)] by (intro conjI exI [of _ p]) simp_all
    then have "X \<in> found_around tags' q Y"
      unfolding found_around_def by simp
    moreover have "q \<in> set ?ps" using qi by (simp add: set_scan_order)
    ultimately have "X \<in> (\<Union>p\<in>set ?ps. found_around tags' p Y)" by blast
    then show "X \<in> set (neighbors_of s' Y)" using rows [OF Y] by simp
  qed
  show ?thesis unfolding wf_image_def using 1 2 3 4 by blast
qed

lemma sum_list_indicator:
  fixes a :: int
  assumes "distinct ks" "a \<in> set ks"
  shows "sum_list (map (\<lambda>t. if a = t then (1::nat) else 0) ks) = 1"
proof -
  have "sum_list (map (\<lambda>t. if a = t then (1::nat) else 0) ks) =
      sum (\<lambda>t. if a = t then (1::nat) else 0) (set ks)"
    using assms(1) by (rule sum_list_distinct_conv_sum_set)
  also have "\<dots> = 1" using assms(2) by (simp add: sum.delta')
  finally show ?thesis .
qed

lemma count_by_key:
  fixes f :: "'a \<Rightarrow> int"
  assumes "distinct ks" "f ` set ps \<subseteq> set ks"
  shows "sum_list (map (\<lambda>t. length (filter (\<lambda>p. f p = t) ps)) ks) = length ps"
  using assms(2)
proof (induction ps)
  case Nil
  then show ?case by simp
next
  case (Cons p ps)
  have "sum_list (map (\<lambda>t. length (filter (\<lambda>p. f p = t) (p # ps))) ks) =
      sum_list (map (\<lambda>t. (if f p = t then (1::nat) else 0) + length (filter (\<lambda>p. f p = t) ps)) ks)"
    by (rule arg_cong [where f = sum_list], rule map_cong) auto
  also have "\<dots> = sum_list (map (\<lambda>t. if f p = t then (1::nat) else 0) ks) +
      sum_list (map (\<lambda>t. length (filter (\<lambda>p. f p = t) ps)) ks)"
    by (rule sum_list_addf)
  also have "\<dots> = 1 + length ps"
    using Cons sum_list_indicator [OF assms(1), of "f p"] by simp
  finally show ?case by simp
qed

lemma parsed_total_coords:
  assumes "parsed tags tags' s'"
  shows "total_coords s' = nat (rows tags) * nat (cols tags)"
proof -
  let ?ps = "scan_order tags"
  let ?m = "tagToSuperpixelMap s'"
  from assms have obj: "\<And>t. getSuperpixelPtr s' t = parsed_object tags ?ps None t"
    and dis: "distinct (map fst ?m)"
    and keys: "set (map fst ?m) = (\<lambda>p. label_at tags p + 1) ` set ?ps"
    and sps: "superpixels s' = sort (map fst ?m)"
    unfolding parsed_def by blast+
  have n: "\<And>t. numCoords_of s' t = length (filter (\<lambda>p. label_at tags p + 1 = t) ?ps)"
    by (simp add: numCoords_of_def obj parsed_object_def coords_with_label_def new_Superpixel_def)
  have n': "numCoords_of s' = (\<lambda>t. length (filter (\<lambda>p. label_at tags p + 1 = t) ?ps))"
    by (rule ext) (rule n)
  have "total_coords s' =
      sum_list (map (\<lambda>t. length (filter (\<lambda>p. label_at tags p + 1 = t) ?ps)) (superpixels s'))"
    unfolding total_coords_def n' ..
  also have "\<dots> = length ?ps"
    using dis keys by (intro count_by_key) (simp_all add: sps)
  finally show ?thesis by (simp add: length_scan_order)
qed

lemma parsed_count:
  assumes "parsed tags tags' s'"
  shows "length (superpixels s') = card {label_at tags p | p. in_image tags p}"
proof -
  let ?ps = "scan_order tags"
  let ?m = "tagToSuperpixelMap s'"
  from assms have dis: "distinct (map fst ?m)"
    and keys: "set (map fst ?m) = (\<lambda>p. label_at tags p + 1) ` set ?ps"
    and sps: "superpixels s' = sort (map fst ?m)"
    unfolding parsed_def by blast+
  have "card (set (map fst ?m)) = length (map fst ?m)"
    using dis by (rule distinct_card)
  then have "length (superpixels s') = card (set (map fst ?m))"
    by (simp add: sps)
  also have "\<dots> = card ((\<lambda>l. l + 1) ` (label_at tags ` set ?ps))"
    unfolding keys by (simp add: image_image)
  also have "\<dots> = card (label_at tags ` set ?ps)"
    by (rule card_image) (simp add: inj_on_def)
  also have "label_at tags ` set ?ps = {label_at tags p | p. in_image tags p}"
    by (auto simp: set_scan_order)
  finally show ?thesis .
qed

text \<open>A reserved label makes \<open>parse\<close> return \<open>false\<close> at its first occurrence.\<close>

lemma parse_failure:
  assumes "\<exists>p\<in>set (scan_order tags). label_at tags p = reserved_label"
  shows "\<exists>pre q post tags' s'. scan_order tags = pre @ q # post \<and>
      label_at tags q = reserved_label \<and>
      (\<forall>p\<in>set pre. label_at tags p \<noteq> reserved_label) \<and>
      parse tags empty_SuperpixelImage = Inr (False, tags', s') \<and>
      (\<forall>y x. at_yx tags' y x =
         (if (y, x) \<in> set pre then tag_bytes (label_at tags (y, x) + 1) else at_yx tags y x))"
proof -
  have e: "\<forall>k sp. map_of ([] :: (tag_id \<times> Superpixel) list) k = Some sp \<longrightarrow> tag sp = k" by simp
  from parse_pixels_reserved [OF distinct_scan_order assms e]
  obtain pre q post tags' m' where "scan_order tags = pre @ q # post"
    "label_at tags q = reserved_label" "\<forall>p\<in>set pre. label_at tags p \<noteq> reserved_label"
    and r: "parse_pixels (scan_order tags) tags [] = Inr (False, tags', m')"
    and "\<forall>y x. at_yx tags' y x =
         (if (y, x) \<in> set pre then tag_bytes (label_at tags (y, x) + 1) else at_yx tags y x)"
    by blast
  moreover have "parse tags empty_SuperpixelImage =
      Inr (False, tags', empty_SuperpixelImage\<lparr>tagToSuperpixelMap := m'\<rparr>)"
    using r by (simp add: parse_def empty_SuperpixelImage_def)
  ultimately show ?thesis by blast
qed

lemma parse_True_parsed:
  assumes "parse tags empty_SuperpixelImage = Inr (True, tags', s')"
  shows "parsed tags tags' s'" and "\<forall>p\<in>set (scan_order tags). label_at tags p \<noteq> reserved_label"
proof -
  show ok: "\<forall>p\<in>set (scan_order tags). label_at tags p \<noteq> reserved_label"
  proof (rule ccontr)
    assume "\<not> ?thesis"
    then have "\<exists>p\<in>set (scan_order tags). label_at tags p = reserved_label" by blast
    from parse_failure [OF this] show False using assms by auto
  qed
  from parse_success [OF ok] show "parsed tags tags' s'" using assms by auto
qed


lemma parsedD:
  assumes "parsed tags tags' s'"
  shows "rows tags' = rows tags" "cols tags' = cols tags"
    and "\<And>y x. at_yx tags' y x =
        (if in_image tags (y, x) then tag_bytes (label_at tags (y, x) + 1) else at_yx tags y x)"
    and "\<And>p. in_image tags p \<Longrightarrow> label_at tags' p = label_at tags p + 1"
    and "\<And>t. getSuperpixelPtr s' t = parsed_object tags (scan_order tags) None t"
proof -
  show "rows tags' = rows tags" "cols tags' = cols tags"
    using assms by (simp_all add: parsed_def)
  show "\<And>y x. at_yx tags' y x =
        (if in_image tags (y, x) then tag_bytes (label_at tags (y, x) + 1) else at_yx tags y x)"
    using assms by (simp add: parsed_def)
  show "\<And>p. in_image tags p \<Longrightarrow> label_at tags' p = label_at tags p + 1"
  proof -
    fix p assume "in_image tags p"
    then show "label_at tags' p = label_at tags p + 1"
      using assms by (cases p) (simp add: parsed_def)
  qed
  show "\<And>t. getSuperpixelPtr s' t = parsed_object tags (scan_order tags) None t"
    using assms by (simp add: parsed_def)
qed


section \<open>Properties of mergeEdge\<close>

subsection \<open>The loops\<close>

lemma erase_src_from_dst_eq:
  "\<exists>et'. erase_src_from_dst srcTag dstTag ns found et =
          (filter (\<lambda>n. n \<noteq> srcTag) ns, found \<or> srcTag \<in> set ns, et') \<and>
        getNeighbors et' = getNeighbors et"
proof (induction ns arbitrary: found et)
  case Nil
  then show ?case by simp
next
  case (Cons n ns)
  let ?et1 = "eraseEdgeStrength et (SuperpixelEdge dstTag n)"
  show ?case
  proof (cases "n = srcTag")
    case True
    then show ?thesis using Cons [of True ?et1] by (auto simp: Let_def)
  next
    case False
    from Cons [of found ?et1]
    obtain et' where "erase_src_from_dst srcTag dstTag ns found ?et1 =
          (filter (\<lambda>n. n \<noteq> srcTag) ns, found \<or> srcTag \<in> set ns, et')"
      and "getNeighbors et' = getNeighbors ?et1"
      by blast
    then show ?thesis using False by (auto simp: Let_def)
  qed
qed

lemma erase_src_from_row_eq:
  "\<exists>notDst'. erase_src_from_row srcTag ns found notDst =
          (filter (\<lambda>n. n \<noteq> srcTag) ns, found \<or> srcTag \<in> set ns, notDst') \<and>
        (\<forall>d. (notDst' d = None) = (notDst d = None \<and> d \<notin> set (filter (\<lambda>n. n \<noteq> srcTag) ns)))"
proof (induction ns arbitrary: found notDst)
  case Nil
  then show ?case by simp
next
  case (Cons n ns)
  show ?case
  proof (cases "n = srcTag")
    case True
    then show ?thesis using Cons [of True notDst] by auto
  next
    case False
    from Cons [of found "notDst(n \<mapsto> 0)"]
    obtain nd where "erase_src_from_row srcTag ns found (notDst(n \<mapsto> 0)) =
          (filter (\<lambda>n. n \<noteq> srcTag) ns, found \<or> srcTag \<in> set ns, nd)"
      and "\<forall>d. (nd d = None) = ((notDst(n \<mapsto> 0)) d = None \<and> d \<notin> set (filter (\<lambda>n. n \<noteq> srcTag) ns))"
      by blast
    then show ?thesis using False by auto
  qed
qed

lemma relink_src_neighbors_eq:
  assumes "srcTag \<noteq> dstTag" "distinct ns"
    and "\<forall>N \<in> set ns. N \<noteq> dstTag \<longrightarrow> srcTag \<in> set (getNeighbors et N)"
  shows "\<exists>et'. relink_src_neighbors srcTag dstTag ns et = Inr et' \<and>
           getNeighbors et' = relinked (getNeighbors et) srcTag dstTag ns"
  using assms(2,3)
proof (induction ns arbitrary: et)
  case Nil
  then show ?case by (auto simp: relinked_def)
next
  case (Cons n rest)
  let ?et1 = "eraseEdgeStrength et (SuperpixelEdge srcTag n)"
  show ?case
  proof (cases "n = dstTag")
    case True
    have "\<exists>et'. relink_src_neighbors srcTag dstTag rest ?et1 = Inr et' \<and>
           getNeighbors et' = relinked (getNeighbors ?et1) srcTag dstTag rest"
      using Cons.prems by (intro Cons.IH) auto
    then show ?thesis using True Cons.prems
      by (auto simp: Let_def relinked_def fun_eq_iff)
  next
    case False
    obtain nd where row: "erase_src_from_row srcTag (getNeighbors ?et1 n) False Map.empty =
          (filter (\<lambda>m. m \<noteq> srcTag) (getNeighbors et n), True, nd)"
      and nd: "\<forall>d. (nd d = None) = (d \<notin> set (filter (\<lambda>m. m \<noteq> srcTag) (getNeighbors et n)))"
      using erase_src_from_row_eq [of srcTag "getNeighbors ?et1 n" False Map.empty] Cons.prems False
      by auto
    have nd_dst: "(nd dstTag = None) = (dstTag \<notin> set (getNeighbors et n))"
      using nd assms(1) by auto
    show ?thesis
    proof (cases "dstTag \<in> set (getNeighbors et n)")
      case True
      let ?et2 = "setNeighbors ?et1 n (filter (\<lambda>m. m \<noteq> srcTag) (getNeighbors et n))"
      have "\<exists>et'. relink_src_neighbors srcTag dstTag rest ?et2 = Inr et' \<and>
           getNeighbors et' = relinked (getNeighbors ?et2) srcTag dstTag rest"
        using Cons.prems by (intro Cons.IH) auto
      then obtain et' where r: "relink_src_neighbors srcTag dstTag rest ?et2 = Inr et'"
        and g: "getNeighbors et' = relinked (getNeighbors ?et2) srcTag dstTag rest" by blast
      have "relink_src_neighbors srcTag dstTag (n # rest) et = Inr et'"
        using False row nd_dst True r by (auto simp: Let_def)
      moreover have "getNeighbors et' = relinked (getNeighbors et) srcTag dstTag (n # rest)"
        unfolding g using False True Cons.prems(1)
        by (auto simp: relinked_def fun_eq_iff intro!: filter_cong)
      ultimately show ?thesis by blast
    next
      case nodst: False
      let ?et2 = "setNeighbors (setNeighbors ?et1 dstTag (getNeighbors ?et1 dstTag @ [n])) n
                    (filter (\<lambda>m. m \<noteq> srcTag) (getNeighbors et n) @ [dstTag])"
      have "\<exists>et'. relink_src_neighbors srcTag dstTag rest ?et2 = Inr et' \<and>
           getNeighbors et' = relinked (getNeighbors ?et2) srcTag dstTag rest"
        using Cons.prems by (intro Cons.IH) auto
      then obtain et' where r: "relink_src_neighbors srcTag dstTag rest ?et2 = Inr et'"
        and g: "getNeighbors et' = relinked (getNeighbors ?et2) srcTag dstTag rest" by blast
      have "relink_src_neighbors srcTag dstTag (n # rest) et = Inr et'"
        using False row nd_dst nodst r by (auto simp: Let_def)
      moreover have "getNeighbors et' = relinked (getNeighbors et) srcTag dstTag (n # rest)"
        unfolding g using False nodst Cons.prems(1)
        by (auto simp: relinked_def fun_eq_iff intro!: filter_cong)
      ultimately show ?thesis by blast
    qed
  qed
qed


declare lower_bound.simps [simp del]

lemma lower_bound_sorted:
  "sorted xs \<Longrightarrow> first + count \<le> length xs \<Longrightarrow> (\<forall>i<first. xs ! i < v) \<Longrightarrow>
     (\<forall>i. first + count \<le> i \<and> i < length xs \<longrightarrow> v \<le> xs ! i) \<Longrightarrow>
     lower_bound xs first count v \<le> length xs \<and>
     (\<forall>i < lower_bound xs first count v. xs ! i < v) \<and>
     (\<forall>i. lower_bound xs first count v \<le> i \<and> i < length xs \<longrightarrow> v \<le> xs ! i)"
proof (induction xs first count v rule: lower_bound.induct)
  case (1 xs first count val)
  note srt = "1.prems"(1) and bound = "1.prems"(2) and low = "1.prems"(3) and high = "1.prems"(4)
  show ?case
  proof (cases "count > 0")
    case False
    then have "lower_bound xs first count val = first"
      by (subst lower_bound.simps) simp
    then show ?thesis using bound low high False by simp
  next
    case pos: True
    let ?it = "first + count div 2"
    have it: "?it < length xs" using pos bound by (simp add: less_le_trans)
    show ?thesis
    proof (cases "xs ! ?it < val")
      case True
      have below: "\<forall>i<?it + 1. xs ! i < val"
      proof (intro allI impI)
        fix i assume "i < ?it + 1"
        then have "i \<le> ?it" by simp
        then have "xs ! i \<le> xs ! ?it" using srt it sorted_nth_mono by blast
        then show "xs ! i < val" using True by simp
      qed
      have eq: "?it + 1 + (count - (count div 2 + 1)) = first + count"
        using pos by simp
      have "lower_bound xs (?it + 1) (count - (count div 2 + 1)) val \<le> length xs \<and>
         (\<forall>i < lower_bound xs (?it + 1) (count - (count div 2 + 1)) val. xs ! i < val) \<and>
         (\<forall>i. lower_bound xs (?it + 1) (count - (count div 2 + 1)) val \<le> i \<and> i < length xs \<longrightarrow> val \<le> xs ! i)"
        using pos True below srt bound high eq
        by (intro "1.IH"(1)) simp_all
      moreover have "lower_bound xs first count val =
          lower_bound xs (?it + 1) (count - (count div 2 + 1)) val"
        using pos True by (subst lower_bound.simps) simp
      ultimately show ?thesis by simp
    next
      case False
      have above: "\<forall>i. first + count div 2 \<le> i \<and> i < length xs \<longrightarrow> val \<le> xs ! i"
      proof (intro allI impI)
        fix i assume i: "first + count div 2 \<le> i \<and> i < length xs"
        then have "xs ! ?it \<le> xs ! i" using srt sorted_nth_mono by blast
        then show "val \<le> xs ! i" using False by simp
      qed
      have "lower_bound xs first (count div 2) val \<le> length xs \<and>
         (\<forall>i < lower_bound xs first (count div 2) val. xs ! i < val) \<and>
         (\<forall>i. lower_bound xs first (count div 2) val \<le> i \<and> i < length xs \<longrightarrow> val \<le> xs ! i)"
        using pos False above srt low it
        by (intro "1.IH"(2)) simp_all
      moreover have "lower_bound xs first count val = lower_bound xs first (count div 2) val"
        using pos False by (subst lower_bound.simps) simp
      ultimately show ?thesis by simp
    qed
  qed
qed

lemma binary_search_iter_found:
  assumes "sorted xs" "v \<in> set xs"
  shows "binary_search_iter xs v < length xs \<and> xs ! binary_search_iter xs v = v"
proof -
  let ?r = "lower_bound xs 0 (length xs) v"
  have r: "?r \<le> length xs" "\<forall>i < ?r. xs ! i < v" "\<forall>i. ?r \<le> i \<and> i < length xs \<longrightarrow> v \<le> xs ! i"
    using lower_bound_sorted [OF assms(1), of 0 "length xs" v] by auto
  obtain j where j: "j < length xs" "xs ! j = v" using assms(2) by (auto simp: in_set_conv_nth)
  have "?r \<le> j" using r(2) j by (meson less_irrefl not_le)
  then have lt: "?r < length xs" using j by simp
  have "xs ! ?r \<le> xs ! j" using sorted_nth_mono [OF assms(1) \<open>?r \<le> j\<close> j(1)] .
  moreover have "v \<le> xs ! ?r" using r(3) lt by simp
  ultimately have "xs ! ?r = v" using j by simp
  then show ?thesis using lt by (simp add: binary_search_iter_def Let_def)
qed

lemma erase_at_distinct:
  assumes "distinct xs" "i < length xs"
  shows "erase_at xs i = filter (\<lambda>x. x \<noteq> xs ! i) xs"
proof -
  have xs: "xs = take i xs @ xs ! i # drop (Suc i) xs"
    using assms(2) by (rule id_take_nth_drop)
  have "distinct (take i xs @ xs ! i # drop (Suc i) xs)" using assms(1) xs by simp
  then have "xs ! i \<notin> set (take i xs)" "xs ! i \<notin> set (drop (Suc i) xs)" by auto
  then have "filter (\<lambda>x. x \<noteq> xs ! i) (take i xs) = take i xs"
    "filter (\<lambda>x. x \<noteq> xs ! i) (drop (Suc i) xs) = drop (Suc i) xs"
    by (auto intro!: filter_True)
  then have "filter (\<lambda>x. x \<noteq> xs ! i) (take i xs @ xs ! i # drop (Suc i) xs) = take i xs @ drop (Suc i) xs"
    by simp
  then show ?thesis using xs by (simp add: erase_at_def)
qed


lemma neighbors_of_eq: "neighbors_of s = getNeighbors (edgeTable s)"
  by (rule ext) (simp add: neighbors_of_def)

lemma wf_image_lookup:
  assumes "wf_image s"
  shows "(k \<in> set (superpixels s)) = (getSuperpixelPtr s k \<noteq> None)"
    and "getSuperpixelPtr s k = Some sp \<Longrightarrow> tag sp = k"
proof -
  have keys: "set (superpixels s) = dom (map_of (tagToSuperpixelMap s))"
    using assms by (simp add: wf_image_def dom_map_of_conv_image_fst)
  show a: "(k \<in> set (superpixels s)) = (getSuperpixelPtr s k \<noteq> None)"
    unfolding keys getSuperpixelPtr_def by (auto simp: dom_def)
  show "getSuperpixelPtr s k = Some sp \<Longrightarrow> tag sp = k"
  proof -
    assume sp: "getSuperpixelPtr s k = Some sp"
    then have "k \<in> set (superpixels s)" using a by simp
    moreover have "\<forall>k \<in> set (superpixels s).
        (case getSuperpixelPtr s k of None \<Rightarrow> False | Some sp \<Rightarrow> tag sp = k)"
      using assms unfolding wf_image_def by blast
    ultimately have "case getSuperpixelPtr s k of None \<Rightarrow> False | Some sp \<Rightarrow> tag sp = k"
      by blast
    then show "tag sp = k" using sp by simp
  qed
qed

lemma merge_src_into_dst_eq:
  assumes wf: "wf_image s"
    and src: "getSuperpixelPtr s srcKey = Some src"
    and dst: "getSuperpixelPtr s dstKey = Some dst"
    and ne: "srcKey \<noteq> dstKey"
  shows "if srcKey \<in> set (neighbors_of s dstKey)
         then \<exists>s' dst'. merge_src_into_dst srcKey src dstKey dst s = Inr s' \<and>
                superpixels s' = filter (\<lambda>t. t \<noteq> srcKey) (superpixels s) \<and>
                set (map fst (tagToSuperpixelMap s')) = set (map fst (tagToSuperpixelMap s)) - {srcKey} \<and>
                getSuperpixelPtr s' = (getSuperpixelPtr s)(dstKey \<mapsto> dst', srcKey := None) \<and>
                tag dst' = dstKey \<and> coords dst' = coords dst @ coords src \<and>
                neighbors_of s' = merged_rows (neighbors_of s) srcKey dstKey
         else merge_src_into_dst srcKey src dstKey dst s = Inl AssertionFailed"
proof -
  have tsrc: "tag src = srcKey" and tdst: "tag dst = dstKey"
    using wf_image_lookup(2) [OF wf] src dst by auto
  have live: "srcKey \<in> set (superpixels s)" "dstKey \<in> set (superpixels s)"
    using wf_image_lookup(1) [OF wf] src dst by auto
  have srt: "sorted (superpixels s)" "distinct (superpixels s)"
    using wf by (auto simp: wf_image_def)
  let ?it = "binary_search_iter (superpixels s) srcKey"
  have it: "?it < length (superpixels s)" "superpixels s ! ?it = srcKey"
    using binary_search_iter_found [OF srt(1) live(1)] by auto
  have er: "erase_at (superpixels s) ?it = filter (\<lambda>t. t \<noteq> srcKey) (superpixels s)"
    using erase_at_distinct [OF srt(2) it(1)] it(2) by simp
  let ?nb = "getNeighbors (edgeTable s)"
  obtain et1 where e1: "erase_src_from_dst srcKey dstKey (?nb dstKey) False (edgeTable s) =
        (filter (\<lambda>n. n \<noteq> srcKey) (?nb dstKey), srcKey \<in> set (?nb dstKey), et1)"
    and g1: "getNeighbors et1 = ?nb"
    using erase_src_from_dst_eq [of srcKey dstKey "?nb dstKey" False "edgeTable s"] by auto
  show ?thesis
  proof (cases "srcKey \<in> set (neighbors_of s dstKey)")
    case False
    then show ?thesis
      using it e1 tsrc tdst by (simp add: merge_src_into_dst_def Let_def neighbors_of_def)
  next
    case True
    let ?et2 = "setNeighbors et1 dstKey (filter (\<lambda>n. n \<noteq> srcKey) (?nb dstKey))"
    have g2: "getNeighbors ?et2 = ?nb(dstKey := filter (\<lambda>n. n \<noteq> srcKey) (?nb dstKey))"
      by (simp add: g1)
    have rows: "distinct (?nb srcKey)" "srcKey \<notin> set (?nb srcKey)"
      "\<forall>N \<in> set (?nb srcKey). srcKey \<in> set (?nb N)"
      using wf live(1) by (auto simp: wf_image_def neighbors_of_def)
    have "\<exists>et'. relink_src_neighbors srcKey dstKey (?nb srcKey) ?et2 = Inr et' \<and>
           getNeighbors et' = relinked (getNeighbors ?et2) srcKey dstKey (?nb srcKey)"
      using ne rows by (intro relink_src_neighbors_eq) (auto simp: g1)
    then obtain et3 where e3: "relink_src_neighbors srcKey dstKey (?nb srcKey) ?et2 = Inr et3"
      and g3: "getNeighbors et3 = relinked (getNeighbors ?et2) srcKey dstKey (?nb srcKey)"
      by blast
    have g4: "getNeighbors (removeNeighbors et3 srcKey) = merged_rows ?nb srcKey dstKey"
      using ne rows(2)
      by (auto simp: g3 g1 relinked_def merged_rows_def fun_eq_iff intro!: filter_cong)
    let ?dst' = "(if length (unmergedEdgeWeights src) > 0
         then (if length (mergedEdgeWeights src) > 0
               then dst\<lparr>coords := coords dst @ coords src,
                        mergedEdgeWeights := mergedEdgeWeights dst @ mergedEdgeWeights src\<rparr>
               else dst\<lparr>coords := coords dst @ coords src\<rparr>)
              \<lparr>unmergedEdgeWeights := unmergedEdgeWeights dst @ unmergedEdgeWeights src\<rparr>
         else (if length (mergedEdgeWeights src) > 0
               then dst\<lparr>coords := coords dst @ coords src,
                        mergedEdgeWeights := mergedEdgeWeights dst @ mergedEdgeWeights src\<rparr>
               else dst\<lparr>coords := coords dst @ coords src\<rparr>))"
    let ?s' = "s\<lparr>tagToSuperpixelMap := AList.delete srcKey (AList.update dstKey ?dst'
                   (AList.update srcKey (src\<lparr>coords := []\<rparr>) (tagToSuperpixelMap s))),
                 superpixels := filter (\<lambda>t. t \<noteq> srcKey) (superpixels s),
                 edgeTable := removeNeighbors et3 srcKey\<rparr>"
    have res: "merge_src_into_dst srcKey src dstKey dst s = Inr ?s'"
      using it e1 e3 True tsrc tdst er ne
      by (simp add: merge_src_into_dst_def Let_def neighbors_of_def g1)
    have keys: "set (map fst (tagToSuperpixelMap ?s')) = set (map fst (tagToSuperpixelMap s)) - {srcKey}"
      using live wf ne by (auto simp: delete_keys update_keys wf_image_def)
    have look: "getSuperpixelPtr ?s' = (getSuperpixelPtr s)(dstKey \<mapsto> ?dst', srcKey := None)"
      by (simp add: getSuperpixelPtr_def delete_conv' update_conv' fun_eq_iff)
    have sup: "superpixels ?s' = filter (\<lambda>t. t \<noteq> srcKey) (superpixels s)"
      by simp
    have tg: "tag ?dst' = dstKey" and cs: "coords ?dst' = coords dst @ coords src"
      using tdst by auto
    have nbs: "neighbors_of ?s' = merged_rows (neighbors_of s) srcKey dstKey"
      using g4 by (simp add: neighbors_of_eq)
    have "\<exists>s' dst'. merge_src_into_dst srcKey src dstKey dst s = Inr s' \<and>
                superpixels s' = filter (\<lambda>t. t \<noteq> srcKey) (superpixels s) \<and>
                set (map fst (tagToSuperpixelMap s')) = set (map fst (tagToSuperpixelMap s)) - {srcKey} \<and>
                getSuperpixelPtr s' = (getSuperpixelPtr s)(dstKey \<mapsto> dst', srcKey := None) \<and>
                tag dst' = dstKey \<and> coords dst' = coords dst @ coords src \<and>
                neighbors_of s' = merged_rows (neighbors_of s) srcKey dstKey"
      using res sup keys look tg cs nbs by blast
    then show ?thesis using True by simp
  qed
qed

subsection \<open>The rows after a merge keep the invariant\<close>

lemma merged_rows_wf:
  assumes R: "\<forall>X\<in>L. distinct (nb X) \<and> X \<notin> set (nb X) \<and> (\<forall>Y\<in>set (nb X). Y \<in> L \<and> X \<in> set (nb Y))"
    and L: "src \<in> L" "dst \<in> L" "src \<noteq> dst" "src \<in> set (nb dst)"
    and X: "X \<in> L" "X \<noteq> src"
  shows "distinct (merged_rows nb src dst X)"
    and "X \<notin> set (merged_rows nb src dst X)"
    and "\<forall>Y \<in> set (merged_rows nb src dst X). Y \<in> L \<and> Y \<noteq> src \<and> X \<in> set (merged_rows nb src dst Y)"
proof -
  have sym: "\<And>P Q. P \<in> L \<Longrightarrow> Q \<in> set (nb P) \<Longrightarrow> Q \<in> L \<and> P \<in> set (nb Q)"
    using R by blast
  have dis: "\<And>P. P \<in> L \<Longrightarrow> distinct (nb P)" and irr: "\<And>P. P \<in> L \<Longrightarrow> P \<notin> set (nb P)"
    using R by blast+
  have nodup: "\<And>N. N \<in> set (nb src) \<Longrightarrow> dst \<notin> set (nb N) \<Longrightarrow> N \<notin> set (nb dst)"
    using sym L by blast
  show "distinct (merged_rows nb src dst X)"
    using X L dis [of X] dis [of src] dis [of dst] nodup
    by (auto simp: merged_rows_def)
  show "X \<notin> set (merged_rows nb src dst X)"
    using X L irr [of X]
    by (auto simp: merged_rows_def)
  show "\<forall>Y \<in> set (merged_rows nb src dst X). Y \<in> L \<and> Y \<noteq> src \<and> X \<in> set (merged_rows nb src dst Y)"
  proof
    fix Y assume Y: "Y \<in> set (merged_rows nb src dst X)"
    consider (d) "X = dst" | (n) "X \<noteq> dst" "X \<in> set (nb src)" | (o) "X \<noteq> dst" "X \<notin> set (nb src)"
      by blast
    then show "Y \<in> L \<and> Y \<noteq> src \<and> X \<in> set (merged_rows nb src dst Y)"
    proof cases
      case d
      then have "Y \<in> set (nb dst) \<and> Y \<noteq> src \<or> Y \<in> set (nb src) \<and> Y \<noteq> dst \<and> dst \<notin> set (nb Y)"
        using Y X by (auto simp: merged_rows_def)
      then show ?thesis
        using d L sym [of dst Y] sym [of src Y] irr [of src]
        by (auto simp: merged_rows_def)
    next
      case n
      then have "Y \<in> set (nb X) \<and> Y \<noteq> src \<or> Y = dst"
        using Y X by (auto simp: merged_rows_def split: if_splits)
      then show ?thesis
        using n X L sym [of X Y] sym [of src X]
        by (auto simp: merged_rows_def)
    next
      case o
      then have "Y \<in> set (nb X)"
        using Y X by (auto simp: merged_rows_def)
      moreover have "src \<notin> set (nb X)" using o sym [of X src] X by blast
      ultimately show ?thesis
        using o X L sym [of X Y]
        by (auto simp: merged_rows_def)
    qed
  qed
qed

subsection \<open>mergeEdge as a whole\<close>

lemma wf_imageD:
  assumes "wf_image s"
  shows "sorted (superpixels s)" and "distinct (superpixels s)"
    and "set (superpixels s) = set (map fst (tagToSuperpixelMap s))"
    and "\<forall>X\<in>set (superpixels s). distinct (neighbors_of s X) \<and> X \<notin> set (neighbors_of s X) \<and>
        (\<forall>Y\<in>set (neighbors_of s X). Y \<in> set (superpixels s) \<and> X \<in> set (neighbors_of s Y))"
  using assms unfolding wf_image_def by blast+

text \<open>What a successful merge of the source \<open>srcT\<close> into \<open>dstT\<close> leaves.\<close>

lemma mergeEdge_Inr:
  assumes wf: "wf_image s" and m: "mergeEdge A B s = Inr s'"
  obtains srcT dstT src dst dst' where
    "A \<noteq> B"
    "(srcT, dstT) = (if numCoords_of s A \<ge> numCoords_of s B then (B, A) else (A, B))"
    "getSuperpixelPtr s srcT = Some src" "getSuperpixelPtr s dstT = Some dst"
    "srcT \<in> set (neighbors_of s dstT)"
    "superpixels s' = filter (\<lambda>t. t \<noteq> srcT) (superpixels s)"
    "set (map fst (tagToSuperpixelMap s')) = set (map fst (tagToSuperpixelMap s)) - {srcT}"
    "getSuperpixelPtr s' = (getSuperpixelPtr s)(dstT \<mapsto> dst', srcT := None)"
    "tag dst' = dstT" "coords dst' = coords dst @ coords src"
    "neighbors_of s' = merged_rows (neighbors_of s) srcT dstT"
proof -
  from m obtain spA spB where ne: "A \<noteq> B"
    and a: "getSuperpixelPtr s A = Some spA" and b: "getSuperpixelPtr s B = Some spB"
    by (auto simp: mergeEdge_def split: if_splits option.splits)
  show thesis
  proof (cases "length (coords spA) \<ge> length (coords spB)")
    case True
    then have r: "merge_src_into_dst B spB A spA s = Inr s'"
      using m ne a b by (simp add: mergeEdge_def)
    have ne': "B \<noteq> A" using ne by simp
    from merge_src_into_dst_eq [OF wf b a ne'] r
    obtain dst' where "B \<in> set (neighbors_of s A)"
      "superpixels s' = filter (\<lambda>t. t \<noteq> B) (superpixels s)"
      "set (map fst (tagToSuperpixelMap s')) = set (map fst (tagToSuperpixelMap s)) - {B}"
      "getSuperpixelPtr s' = (getSuperpixelPtr s)(A \<mapsto> dst', B := None)"
      "tag dst' = A" "coords dst' = coords spA @ coords spB"
      "neighbors_of s' = merged_rows (neighbors_of s) B A"
      by (auto split: if_splits)
    moreover have "(B, A) = (if numCoords_of s A \<ge> numCoords_of s B then (B, A) else (A, B))"
      using True a b by (simp add: numCoords_of_def)
    ultimately show thesis using that [of B A spB spA dst'] ne a b by blast
  next
    case False
    then have r: "merge_src_into_dst A spA B spB s = Inr s'"
      using m ne a b by (simp add: mergeEdge_def)
    from merge_src_into_dst_eq [OF wf a b ne] r
    obtain dst' where "A \<in> set (neighbors_of s B)"
      "superpixels s' = filter (\<lambda>t. t \<noteq> A) (superpixels s)"
      "set (map fst (tagToSuperpixelMap s')) = set (map fst (tagToSuperpixelMap s)) - {A}"
      "getSuperpixelPtr s' = (getSuperpixelPtr s)(B \<mapsto> dst', A := None)"
      "tag dst' = B" "coords dst' = coords spB @ coords spA"
      "neighbors_of s' = merged_rows (neighbors_of s) A B"
      by (auto split: if_splits)
    moreover have "(A, B) = (if numCoords_of s A \<ge> numCoords_of s B then (B, A) else (A, B))"
      using False a b by (simp add: numCoords_of_def)
    ultimately show thesis using that [of A B spA spB dst'] ne a b by blast
  qed
qed

lemma mergeEdge_succeeds:
  assumes wf: "wf_image s" and ne: "A \<noteq> B"
    and a: "getSuperpixelPtr s A = Some spA" and b: "getSuperpixelPtr s B = Some spB"
    and adj: "B \<in> set (neighbors_of s A)"
  shows "\<exists>s'. mergeEdge A B s = Inr s'"
proof -
  have liveA: "A \<in> set (superpixels s)" using wf_image_lookup(1) [OF wf] a by simp
  have adj': "A \<in> set (neighbors_of s B)"
    using wf_imageD(4) [OF wf] liveA adj by blast
  show ?thesis
  proof (cases "length (coords spA) \<ge> length (coords spB)")
    case True
    have ne': "B \<noteq> A" using ne by simp
    from merge_src_into_dst_eq [OF wf b a ne'] adj
    show ?thesis using True ne a b by (auto simp: mergeEdge_def)
  next
    case False
    from merge_src_into_dst_eq [OF wf a b ne] adj'
    show ?thesis using False ne a b by (auto simp: mergeEdge_def)
  qed
qed

lemma mergeEdge_wf:
  assumes wf: "wf_image s" and m: "mergeEdge A B s = Inr s'"
  shows "wf_image s'"
proof -
  from wf m obtain srcT dstT src dst dst' where
    ne: "A \<noteq> B"
    and sel: "(srcT, dstT) = (if numCoords_of s A \<ge> numCoords_of s B then (B, A) else (A, B))"
    and src: "getSuperpixelPtr s srcT = Some src" and dst: "getSuperpixelPtr s dstT = Some dst"
    and adj: "srcT \<in> set (neighbors_of s dstT)"
    and sps: "superpixels s' = filter (\<lambda>t. t \<noteq> srcT) (superpixels s)"
    and keys: "set (map fst (tagToSuperpixelMap s')) = set (map fst (tagToSuperpixelMap s)) - {srcT}"
    and look: "getSuperpixelPtr s' = (getSuperpixelPtr s)(dstT \<mapsto> dst', srcT := None)"
    and tg: "tag dst' = dstT" and cs: "coords dst' = coords dst @ coords src"
    and rows: "neighbors_of s' = merged_rows (neighbors_of s) srcT dstT"
    by (rule mergeEdge_Inr)
  have sd: "srcT \<noteq> dstT" using sel ne by (auto split: if_splits)
  have live: "srcT \<in> set (superpixels s)" "dstT \<in> set (superpixels s)"
    using wf_image_lookup(1) [OF wf] src dst by auto
  have R: "\<forall>X\<in>set (superpixels s). distinct (neighbors_of s X) \<and> X \<notin> set (neighbors_of s X) \<and>
        (\<forall>Y\<in>set (neighbors_of s X). Y \<in> set (superpixels s) \<and> X \<in> set (neighbors_of s Y))"
    using wf by (rule wf_imageD(4))
  have 1: "sorted (superpixels s')" "distinct (superpixels s')"
    using wf_imageD(1,2) [OF wf] by (auto simp: sps sorted_wrt_filter)
  have "set (superpixels s') = set (superpixels s) - {srcT}"
    by (auto simp: sps)
  then have 2: "set (superpixels s') = set (map fst (tagToSuperpixelMap s'))"
    unfolding keys wf_imageD(3) [OF wf] .
  have 3: "\<forall>k \<in> set (superpixels s').
        (case getSuperpixelPtr s' k of None \<Rightarrow> False | Some sp \<Rightarrow> tag sp = k)"
  proof
    fix k assume k: "k \<in> set (superpixels s')"
    then have k': "k \<in> set (superpixels s)" "k \<noteq> srcT" by (auto simp: sps)
    show "case getSuperpixelPtr s' k of None \<Rightarrow> False | Some sp \<Rightarrow> tag sp = k"
    proof (cases "k = dstT")
      case True
      then show ?thesis using sd tg by (simp add: look)
    next
      case False
      obtain sp where "getSuperpixelPtr s k = Some sp"
        using wf_image_lookup(1) [OF wf, of k] k' by auto
      then show ?thesis using False k' wf_image_lookup(2) [OF wf, of k sp] by (simp add: look)
    qed
  qed
  have 4: "\<forall>X \<in> set (superpixels s').
        distinct (neighbors_of s' X) \<and> X \<notin> set (neighbors_of s' X) \<and>
        (\<forall>Y \<in> set (neighbors_of s' X). Y \<in> set (superpixels s') \<and> X \<in> set (neighbors_of s' Y))"
  proof
    fix X assume "X \<in> set (superpixels s')"
    then have X: "X \<in> set (superpixels s)" "X \<noteq> srcT" by (auto simp: sps)
    note mr = merged_rows_wf [OF R live sd adj X]
    show "distinct (neighbors_of s' X) \<and> X \<notin> set (neighbors_of s' X) \<and>
        (\<forall>Y \<in> set (neighbors_of s' X). Y \<in> set (superpixels s') \<and> X \<in> set (neighbors_of s' Y))"
      using mr by (auto simp: rows sps)
  qed
  show ?thesis unfolding wf_image_def using 1 2 3 4 by blast
qed

lemma mergeEdge_total_coords:
  assumes wf: "wf_image s" and m: "mergeEdge A B s = Inr s'"
  shows "total_coords s' = total_coords s"
proof -
  from wf m obtain srcT dstT src dst dst' where
    ne: "A \<noteq> B"
    and sel: "(srcT, dstT) = (if numCoords_of s A \<ge> numCoords_of s B then (B, A) else (A, B))"
    and src: "getSuperpixelPtr s srcT = Some src" and dst: "getSuperpixelPtr s dstT = Some dst"
    and sps: "superpixels s' = filter (\<lambda>t. t \<noteq> srcT) (superpixels s)"
    and look: "getSuperpixelPtr s' = (getSuperpixelPtr s)(dstT \<mapsto> dst', srcT := None)"
    and cs: "coords dst' = coords dst @ coords src"
    by (rule mergeEdge_Inr)
  have sd: "srcT \<noteq> dstT" using sel ne by (auto split: if_splits)
  have live: "srcT \<in> set (superpixels s)" "dstT \<in> set (superpixels s)"
    using wf_image_lookup(1) [OF wf] src dst by auto
  have dis: "distinct (superpixels s)" using wf by (rule wf_imageD(2))
  let ?S = "set (superpixels s)"
  have n': "\<And>t. t \<noteq> srcT \<Longrightarrow> numCoords_of s' t =
      (if t = dstT then numCoords_of s dstT + numCoords_of s srcT else numCoords_of s t)"
    using src dst cs by (simp add: numCoords_of_def look)
  have st: "set (filter (\<lambda>t. t \<noteq> srcT) (superpixels s)) = ?S - {srcT}"
    by auto
  have "distinct (filter (\<lambda>t. t \<noteq> srcT) (superpixels s))" using dis by simp
  then have "sum_list (map (numCoords_of s') (filter (\<lambda>t. t \<noteq> srcT) (superpixels s))) =
      sum (numCoords_of s') (?S - {srcT})"
    unfolding st [symmetric] by (rule sum_list_distinct_conv_sum_set)
  then have "total_coords s' = sum (numCoords_of s') (?S - {srcT})"
    by (simp add: total_coords_def sps)
  also have "\<dots> = sum (\<lambda>t. if t = dstT then numCoords_of s dstT + numCoords_of s srcT else numCoords_of s t) (?S - {srcT})"
    by (rule sum.cong) (auto simp: n')
  also have "\<dots> = (numCoords_of s dstT + numCoords_of s srcT) + sum (numCoords_of s) (?S - {srcT} - {dstT})"
    using live sd by (subst sum.remove [of _ dstT]) (auto intro!: sum.cong)
  also have "\<dots> = numCoords_of s srcT + sum (numCoords_of s) (?S - {srcT})"
    using live sd by (subst (2) sum.remove [of _ dstT]) auto
  also have "\<dots> = sum (numCoords_of s) ?S"
    using live by (subst (2) sum.remove [of _ srcT]) auto
  also have "\<dots> = total_coords s"
    using dis by (simp add: total_coords_def sum_list_distinct_conv_sum_set)
  finally show ?thesis .
qed

section \<open>The largest-region scan\<close>














section \<open>Properties of the lock bookkeeping\<close>

lemma backproject_next_unlocked_all_locked:
  "\<forall>t \<in> set ts. l t = Some True \<or> getSuperpixelPtr s t = None \<Longrightarrow>
   backproject_next_unlocked s ts it l =
     (- 1, it + length ts,
      (\<lambda>t. if t \<in> set ts \<and> getSuperpixelPtr s t = None then Some True else l t))"
proof (induction ts arbitrary: it l)
  case Nil
  show ?case by simp
next
  case (Cons t ts)
  show ?case
  proof (cases "getSuperpixelPtr s t = None")
    case True
    have "\<forall>t' \<in> set ts. (l(t \<mapsto> True)) t' = Some True \<or> getSuperpixelPtr s t' = None"
      using Cons.prems by auto
    then have ih: "backproject_next_unlocked s ts (Suc it) (l(t \<mapsto> True)) =
        (- 1, Suc it + length ts,
         (\<lambda>x. if x \<in> set ts \<and> getSuperpixelPtr s x = None then Some True
               else (l(t \<mapsto> True)) x))"
      by (rule Cons.IH)
    have eq: "(\<lambda>x. if x \<in> set ts \<and> getSuperpixelPtr s x = None then Some True
                   else (l(t \<mapsto> True)) x) =
        (\<lambda>x. if x \<in> set (t # ts) \<and> getSuperpixelPtr s x = None then Some True else l x)"
      using True by (auto simp: fun_eq_iff)
    show ?thesis
      unfolding backproject_next_unlocked.simps Let_def using True
      by (simp add: ih eq fun_upd_same del: fun_upd_apply set_simps)
  next
    case False
    then have t: "l t = Some True" using Cons.prems by auto
    have "\<forall>t' \<in> set ts. l t' = Some True \<or> getSuperpixelPtr s t' = None"
      using Cons.prems by auto
    then have ih: "backproject_next_unlocked s ts (Suc it) l =
        (- 1, Suc it + length ts,
         (\<lambda>x. if x \<in> set ts \<and> getSuperpixelPtr s x = None then Some True else l x))"
      by (rule Cons.IH)
    have eq: "(\<lambda>x. if x \<in> set ts \<and> getSuperpixelPtr s x = None then Some True else l x) =
        (\<lambda>x. if x \<in> set (t # ts) \<and> getSuperpixelPtr s x = None then Some True else l x)"
      using False by (auto simp: fun_eq_iff)
    have nf: "(getSuperpixelPtr s t = None) = False" using False by simp
    show ?thesis
      unfolding backproject_next_unlocked.simps Let_def
      by (simp add: nf t ih eq del: fun_upd_apply set_simps)
  qed
qed

lemma bredthFirst_next_unlocked_all_locked:
  "\<forall>t \<in> set ts. l t = Some True \<Longrightarrow>
   bredthFirst_next_unlocked ts it l = (- 1, it + length ts, l)"
proof (induction ts arbitrary: it)
  case Nil
  show ?case by simp
next
  case (Cons t ts)
  then show ?case by (simp add: Let_def)
qed

lemma backproject_select_all_locked:
  assumes "\<forall>t \<in> set (drop (spIter st) (sortedSuperpixels st)).
      locked st t = Some True \<or> getSuperpixelPtr s t = None"
  shows "maxTag (backproject_select s st) = - 1"
    "locked (backproject_select s st) =
       (\<lambda>t. if t \<in> set (drop (spIter st) (sortedSuperpixels st)) \<and> getSuperpixelPtr s t = None
             then Some True else locked st t)"
    "mergesSinceLockClear (backproject_select s st) = mergesSinceLockClear st"
    "is_done (backproject_select s st) = is_done st"
    "numLockClear (backproject_select s st) = numLockClear st"
  using backproject_next_unlocked_all_locked [OF assms, of "spIter st"]
  by (simp_all add: backproject_select_def)

lemma bredthFirst_select_all_locked:
  assumes "\<forall>t \<in> set (drop (spIter st) (sortedSuperpixels st)). locked st t = Some True"
  shows "maxTag (bredthFirst_select st) = - 1"
    "locked (bredthFirst_select st) = locked st"
    "mergesSinceLockClear (bredthFirst_select st) = mergesSinceLockClear st"
    "is_done (bredthFirst_select st) = is_done st"
    "numLockClear (bredthFirst_select st) = numLockClear st"
  using bredthFirst_next_unlocked_all_locked [OF assms, of "spIter st"]
  by (simp_all add: bredthFirst_select_def)

lemma erase_locks_eq:
  "erase_locks ks l = (\<lambda>t. if t \<in> set ks then None else l t)"
proof (induction ks arbitrary: l)
  case Nil
  show ?case by simp
next
  case (Cons k ks)
  show ?case by (auto simp: Cons.IH fun_eq_iff)
qed

lemma superpixel_ptrs_live:
  "\<forall>t \<in> set ts. getSuperpixelPtr s t \<noteq> None \<Longrightarrow> \<exists>sps. superpixel_ptrs s ts = Inr sps"
  by (induction ts) auto

lemma sortSuperpixelsBySize_live:
  assumes "\<forall>t \<in> set (superpixels s). getSuperpixelPtr s t \<noteq> None"
  shows "\<exists>ts. sortSuperpixelsBySize s = Inr ts"
  using superpixel_ptrs_live [OF assms] by (auto simp: sortSuperpixelsBySize_def)


section \<open>Invariants of the reachable stores\<close>

lemma reachable_wf: "reachable tags s \<Longrightarrow> wf_image s"
proof (induction rule: reachable.induct)
  case (after_parse tags' s)
  then show ?case using parse_True_parsed(1) parsed_wf by blast
next
  case (after_merge s A B s')
  then show ?case using mergeEdge_wf by blast
qed

lemma reachable_total_coords:
  "reachable tags s \<Longrightarrow> total_coords s = nat (rows tags) * nat (cols tags)"
proof (induction rule: reachable.induct)
  case (after_parse tags' s)
  then show ?case using parse_True_parsed(1) parsed_total_coords by blast
next
  case (after_merge s A B s')
  then show ?case using mergeEdge_total_coords reachable_wf by metis
qed

lemma wf_adjacency_ok: "wf_image s \<Longrightarrow> adjacency_ok s"
  unfolding wf_image_def adjacency_ok_def by blast

section \<open>The merge operator: postcondition\<close>

text \<open>
  Claim C1. In a store that satisfies the store's invariants, \<open>mergeEdge\<close> on
  two distinct live adjacent regions \<open>A\<close> and \<open>B\<close> returns a store. The
  survivor is \<open>A\<close> when it has at least as many coordinates as \<open>B\<close>, and
  \<open>B\<close> otherwise. In the store returned the loser's id is absent, the survivor
  holds as many coordinates as both regions held together, every neighbor the
  loser had, the survivor apart, is a neighbor of the survivor and has the survivor
  as a neighbor, and the row of every active id is free of duplicates.
\<close>

theorem mergeEdge_postcondition:
  assumes wf: "wf_image s" and ne: "A \<noteq> B"
    and a: "getSuperpixelPtr s A = Some spA" and b: "getSuperpixelPtr s B = Some spB"
    and adj: "B \<in> set (neighbors_of s A)"
  shows "\<exists>s' sp. mergeEdge A B s = Inr s' \<and>
      (let dstT = (if length (coords spA) \<ge> length (coords spB) then A else B);
           srcT = (if length (coords spA) \<ge> length (coords spB) then B else A)
       in getSuperpixelPtr s' srcT = None \<and>
          getSuperpixelPtr s' dstT = Some sp \<and>
          length (coords sp) = length (coords spA) + length (coords spB) \<and>
          (\<forall>N \<in> set (neighbors_of s srcT). N \<noteq> dstT \<longrightarrow>
               N \<in> set (neighbors_of s' dstT) \<and> dstT \<in> set (neighbors_of s' N)) \<and>
          (\<forall>X \<in> set (superpixels s'). distinct (neighbors_of s' X)))"
proof -
  obtain s' where m: "mergeEdge A B s = Inr s'"
    using mergeEdge_succeeds [OF wf ne a b adj] by blast
  from wf m obtain srcT dstT src dst dst' where
    sel: "(srcT, dstT) = (if numCoords_of s A \<ge> numCoords_of s B then (B, A) else (A, B))"
    and src: "getSuperpixelPtr s srcT = Some src" and dst: "getSuperpixelPtr s dstT = Some dst"
    and look: "getSuperpixelPtr s' = (getSuperpixelPtr s)(dstT \<mapsto> dst', srcT := None)"
    and cs: "coords dst' = coords dst @ coords src"
    and rows: "neighbors_of s' = merged_rows (neighbors_of s) srcT dstT"
    by (rule mergeEdge_Inr)
  have n: "numCoords_of s A = length (coords spA)" "numCoords_of s B = length (coords spB)"
    using a b by (simp_all add: numCoords_of_def)
  have sd: "srcT \<noteq> dstT" using sel ne by (auto split: if_splits)
  have dstT: "dstT = (if length (coords spA) \<ge> length (coords spB) then A else B)"
    and srcT: "srcT = (if length (coords spA) \<ge> length (coords spB) then B else A)"
    using sel n by (auto split: if_splits)
  have len: "length (coords dst') = length (coords spA) + length (coords spB)"
    using src dst a b cs dstT srcT by (auto split: if_splits)
  have live: "srcT \<in> set (superpixels s)"
    using wf_image_lookup(1) [OF wf] src by auto
  note R = wf_imageD(4) [OF wf]
  have nbs: "\<forall>N \<in> set (neighbors_of s srcT). N \<noteq> dstT \<longrightarrow>
               N \<in> set (neighbors_of s' dstT) \<and> dstT \<in> set (neighbors_of s' N)"
  proof (intro ballI impI)
    fix N assume N: "N \<in> set (neighbors_of s srcT)" "N \<noteq> dstT"
    have "N \<noteq> srcT" using R live N by blast
    moreover have "N \<in> set (superpixels s)" using R live N by blast
    then have "dstT \<in> set (neighbors_of s N) \<Longrightarrow> N \<in> set (neighbors_of s dstT)"
      using R by blast
    ultimately show "N \<in> set (neighbors_of s' dstT) \<and> dstT \<in> set (neighbors_of s' N)"
      using N sd by (auto simp: rows merged_rows_def)
  qed
  have wf': "wf_image s'" using wf m by (rule mergeEdge_wf)
  have dis: "\<forall>X \<in> set (superpixels s'). distinct (neighbors_of s' X)"
    using wf_imageD(4) [OF wf'] by blast
  have "getSuperpixelPtr s' srcT = None" "getSuperpixelPtr s' dstT = Some dst'"
    using sd by (simp_all add: look)
  then show ?thesis
    using m len nbs dis unfolding Let_def dstT [symmetric] srcT [symmetric] by blast
qed

text \<open>The spec's scenario: merging regions 1 (10 coordinates) and 2 (3 coordinates).\<close>

lemma wf_merge_example: "wf_image merge_example"
  by (simp add: wf_image_def merge_example_def getSuperpixelPtr_def example_Superpixel_def
      neighbors_of_def getNeighbors_def)

theorem mergeEdge_postcondition_witness:
  "wf_image merge_example \<and>
   (\<exists>s' sp. mergeEdge 1 2 merge_example = Inr s' \<and>
      getSuperpixelPtr s' 2 = None \<and> getSuperpixelPtr s' 1 = Some sp \<and>
      length (coords sp) = 13 \<and>
      3 \<in> set (neighbors_of s' 1) \<and> 1 \<in> set (neighbors_of s' 3) \<and>
      (\<forall>X \<in> set (superpixels s'). distinct (neighbors_of s' X)))"
proof -
  have a: "getSuperpixelPtr merge_example 1 = Some (example_Superpixel 1 10)"
    and b: "getSuperpixelPtr merge_example 2 = Some (example_Superpixel 2 3)"
    and adj: "2 \<in> set (neighbors_of merge_example 1)"
    and nb2: "neighbors_of merge_example 2 = [1, 3]"
    by (simp_all add: merge_example_def getSuperpixelPtr_def neighbors_of_def getNeighbors_def)
  have ne: "(1::int) \<noteq> 2" by simp
  from mergeEdge_postcondition [OF wf_merge_example ne a b adj]
  obtain s' sp where "mergeEdge 1 2 merge_example = Inr s'"
    "getSuperpixelPtr s' 2 = None" "getSuperpixelPtr s' 1 = Some sp"
    "length (coords sp) = 13"
    "\<forall>N \<in> set (neighbors_of merge_example 2). N \<noteq> 1 \<longrightarrow>
               N \<in> set (neighbors_of s' 1) \<and> 1 \<in> set (neighbors_of s' N)"
    "\<forall>X \<in> set (superpixels s'). distinct (neighbors_of s' X)"
    by (auto simp: example_Superpixel_def Let_def)
  then show ?thesis using wf_merge_example nb2 by auto
qed

section \<open>Parsing: regions and labels\<close>

subsection \<open>The example images, evaluated\<close>

lemma scan_order_example: "scan_order example_tags = [(0, 0), (0, 1)]"
  by (simp add: scan_order_def example_tags_def upto.simps)

lemma scan_order_reserved: "scan_order reserved_tags = [(0, 0), (0, 1)]"
  by (simp add: scan_order_def reserved_tags_def upto.simps)

lemma tag_bytes_examples: "tag_bytes 1 = (1, 0, 0)" "tag_bytes 2 = (2, 0, 0)"
  by (simp_all add: tag_bytes_def)

lemma Vec3BToUID_examples:
  "Vec3BToUID (0, 0, 0) = 0" "Vec3BToUID (1, 0, 0) = 1" "Vec3BToUID (2, 0, 0) = 2"
  "Vec3BToUID (255, 255, 255) = 0xFFFFFF"
  by (simp_all add: Vec3BToUID_def)

lemma parse_example:
  "\<exists>tags' s. parse example_tags empty_SuperpixelImage = Inr (True, tags', s) \<and>
     at_yx tags' 0 0 = (1, 0, 0) \<and> at_yx tags' 0 1 = (2, 0, 0) \<and>
     tagToSuperpixelMap s =
       [(1, (new_Superpixel 1)\<lparr>coords := [(0, 0)]\<rparr>), (2, (new_Superpixel 2)\<lparr>coords := [(1, 0)]\<rparr>)] \<and>
     superpixels s = [1, 2] \<and> neighbors_of s 1 = [2] \<and> neighbors_of s 2 = [1]"
  unfolding parse_def scan_order_example
  by (simp add: example_tags_def Vec3BToUID_examples Let_def tag_bytes_examples new_Superpixel_def
      appendCoord_def set_at_def empty_SuperpixelImage_def parseSuperpixelEdges_def
      scan_order_def upto.simps neighborOffsets_def neighbors_of_def getNeighbors_def
      setNeighbors_def empty_SuperpixelEdgeTable_def)

lemma parse_reserved:
  "\<exists>tags' s. parse reserved_tags empty_SuperpixelImage = Inr (False, tags', s) \<and>
     at_yx tags' 0 0 = (1, 0, 0) \<and> at_yx tags' 0 1 = (255, 255, 255)"
  unfolding parse_def scan_order_reserved
  by (simp add: reserved_tags_def Vec3BToUID_examples Let_def tag_bytes_examples new_Superpixel_def
      appendCoord_def set_at_def empty_SuperpixelImage_def)

lemma no_reserved_example:
  "\<not> (\<exists>p. in_image example_tags p \<and> label_at example_tags p = reserved_label)"
proof -
  have "\<forall>p\<in>set (scan_order example_tags). label_at example_tags p \<noteq> reserved_label"
    unfolding scan_order_example
    by (simp add: label_at_def example_tags_def Vec3BToUID_examples reserved_label_def)
  then show ?thesis by (simp add: set_scan_order)
qed

lemma some_reserved:
  "\<exists>p. in_image reserved_tags p \<and> label_at reserved_tags p = reserved_label"
proof -
  have "(0, 1) \<in> set (scan_order reserved_tags)" by (simp add: scan_order_reserved)
  then have "in_image reserved_tags (0, 1)" by (simp add: set_scan_order)
  moreover have "label_at reserved_tags (0, 1) = reserved_label"
    by (simp add: label_at_def reserved_tags_def Vec3BToUID_examples reserved_label_def)
  ultimately show ?thesis by blast
qed

subsection \<open>Claims about parse\<close>

text \<open>
  Claim C6. \<open>parse\<close> of a label image into the empty store. If a pixel of the
  image carries the reserved label \<open>0xFFFFFF\<close>, \<open>parse\<close> returns \<open>false\<close>
  at the first such pixel in scan order, and that pixel and every pixel after it are
  left as they were. Otherwise \<open>parse\<close> returns \<open>true\<close>; every pixel then reads
  as its label plus one; the object table has one entry per distinct label, keyed by
  the label plus one, holding under each key the region of that id with the
  coordinates of the pixels of that label in scan order; the coordinate counts of
  the active regions add up to the number of pixels; and the active list is
  ascending, free of duplicates, and lists the keys of the object table.
\<close>

theorem parse_regions:
  "if (\<exists>p. in_image tags p \<and> label_at tags p = reserved_label)
   then (\<exists>pre q post tags' s'. scan_order tags = pre @ q # post \<and>
          label_at tags q = reserved_label \<and>
          (\<forall>p\<in>set pre. label_at tags p \<noteq> reserved_label) \<and>
          parse tags empty_SuperpixelImage = Inr (False, tags', s') \<and>
          (\<forall>y x. (y, x) \<notin> set pre \<longrightarrow> at_yx tags' y x = at_yx tags y x))
   else (\<exists>tags' s'. parse tags empty_SuperpixelImage = Inr (True, tags', s') \<and>
          (\<forall>p. in_image tags p \<longrightarrow> label_at tags' p = label_at tags p + 1) \<and>
          distinct (map fst (tagToSuperpixelMap s')) \<and>
          set (map fst (tagToSuperpixelMap s')) = {label_at tags p + 1 | p. in_image tags p} \<and>
          length (tagToSuperpixelMap s') = card {label_at tags p | p. in_image tags p} \<and>
          (\<forall>t sp. getSuperpixelPtr s' t = Some sp \<longrightarrow>
             tag sp = t \<and> coords sp = coords_with_label tags (scan_order tags) t) \<and>
          total_coords s' = nat (rows tags) * nat (cols tags) \<and>
          sorted (superpixels s') \<and> distinct (superpixels s') \<and>
          set (superpixels s') = set (map fst (tagToSuperpixelMap s')))"
proof (cases "\<exists>p. in_image tags p \<and> label_at tags p = reserved_label")
  case True
  then have "\<exists>p\<in>set (scan_order tags). label_at tags p = reserved_label"
    by (simp add: set_scan_order)
  from parse_failure [OF this]
  obtain pre q post tags' s' where "scan_order tags = pre @ q # post"
      "label_at tags q = reserved_label"
      "\<forall>p\<in>set pre. label_at tags p \<noteq> reserved_label"
      "parse tags empty_SuperpixelImage = Inr (False, tags', s')"
      "\<forall>y x. at_yx tags' y x =
         (if (y, x) \<in> set pre then tag_bytes (label_at tags (y, x) + 1) else at_yx tags y x)"
    by blast
  then have "\<exists>pre q post tags' s'. scan_order tags = pre @ q # post \<and>
          label_at tags q = reserved_label \<and>
          (\<forall>p\<in>set pre. label_at tags p \<noteq> reserved_label) \<and>
          parse tags empty_SuperpixelImage = Inr (False, tags', s') \<and>
          (\<forall>y x. (y, x) \<notin> set pre \<longrightarrow> at_yx tags' y x = at_yx tags y x)"
    by (intro exI [of _ pre] exI [of _ q] exI [of _ post] exI [of _ tags'] exI [of _ s']) simp
  then show ?thesis by (subst if_P [OF True])
next
  case False
  then have ok: "\<forall>p\<in>set (scan_order tags). label_at tags p \<noteq> reserved_label"
    by (simp add: set_scan_order)
  from parse_success [OF ok]
  obtain tags' s' where r: "parse tags empty_SuperpixelImage = Inr (True, tags', s')"
    and p: "parsed tags tags' s'" by blast
  let ?m = "tagToSuperpixelMap s'"
  from p have lab: "\<forall>p. in_image tags p \<longrightarrow> label_at tags' p = label_at tags p + 1"
    and obj: "\<And>t. getSuperpixelPtr s' t = parsed_object tags (scan_order tags) None t"
    and dis: "distinct (map fst ?m)"
    and keys: "set (map fst ?m) = (\<lambda>p. label_at tags p + 1) ` set (scan_order tags)"
    and sps: "superpixels s' = sort (map fst ?m)"
    unfolding parsed_def by blast+
  have k: "set (map fst ?m) = {label_at tags p + 1 | p. in_image tags p}"
    unfolding keys by (auto simp: set_scan_order)
  have "length (superpixels s') = length ?m" by (simp add: sps)
  then have n: "length ?m = card {label_at tags p | p. in_image tags p}"
    using parsed_count [OF p] by simp
  have o: "\<forall>t sp. getSuperpixelPtr s' t = Some sp \<longrightarrow>
             tag sp = t \<and> coords sp = coords_with_label tags (scan_order tags) t"
    by (auto simp: obj parsed_object_def new_Superpixel_def split: if_splits)
  have t: "total_coords s' = nat (rows tags) * nat (cols tags)"
    using p by (rule parsed_total_coords)
  have s: "sorted (superpixels s')" "distinct (superpixels s')"
    "set (superpixels s') = set (map fst ?m)"
    using dis by (simp_all add: sps)
  have "\<exists>tags' s'. parse tags empty_SuperpixelImage = Inr (True, tags', s') \<and>
          (\<forall>p. in_image tags p \<longrightarrow> label_at tags' p = label_at tags p + 1) \<and>
          distinct (map fst (tagToSuperpixelMap s')) \<and>
          set (map fst (tagToSuperpixelMap s')) = {label_at tags p + 1 | p. in_image tags p} \<and>
          length (tagToSuperpixelMap s') = card {label_at tags p | p. in_image tags p} \<and>
          (\<forall>t sp. getSuperpixelPtr s' t = Some sp \<longrightarrow>
             tag sp = t \<and> coords sp = coords_with_label tags (scan_order tags) t) \<and>
          total_coords s' = nat (rows tags) * nat (cols tags) \<and>
          sorted (superpixels s') \<and> distinct (superpixels s') \<and>
          set (superpixels s') = set (map fst (tagToSuperpixelMap s'))"
    using r lab dis k n o t s by blast
  then show ?thesis by (subst if_not_P [OF False])
qed

text \<open>
  The two-pixel image with the labels 0 and 1 parses into the regions 1 and 2; the
  same image with the reserved label on its second pixel is refused, and that pixel
  keeps its bytes.
\<close>

theorem parse_regions_witness:
  "(\<exists>tags' s'. parse example_tags empty_SuperpixelImage = Inr (True, tags', s') \<and>
      map fst (tagToSuperpixelMap s') = [1, 2] \<and> superpixels s' = [1, 2] \<and>
      card {label_at example_tags p | p. in_image example_tags p} = 2 \<and>
      total_coords s' = 2) \<and>
   (\<exists>tags' s'. parse reserved_tags empty_SuperpixelImage = Inr (False, tags', s') \<and>
      at_yx tags' 0 1 = at_yx reserved_tags 0 1)"
proof -
  from parse_example obtain tags1 s1 where
    1: "parse example_tags empty_SuperpixelImage = Inr (True, tags1, s1)"
    and m: "tagToSuperpixelMap s1 =
       [(1, (new_Superpixel 1)\<lparr>coords := [(0, 0)]\<rparr>), (2, (new_Superpixel 2)\<lparr>coords := [(1, 0)]\<rparr>)]"
    and sp: "superpixels s1 = [1, 2]"
    by blast
  note regions = parse_regions [of example_tags, unfolded if_not_P [OF no_reserved_example]]
  have "length (tagToSuperpixelMap s1) = card {label_at example_tags p | p. in_image example_tags p} \<and>
      total_coords s1 = nat (rows example_tags) * nat (cols example_tags)"
    using regions 1 by auto
  then have a: "card {label_at example_tags p | p. in_image example_tags p} = 2" "total_coords s1 = 2"
    by (simp_all add: m example_tags_def)
  from parse_reserved obtain tags2 s2 where
    2: "parse reserved_tags empty_SuperpixelImage = Inr (False, tags2, s2)"
    and px: "at_yx tags2 0 1 = (255, 255, 255)"
    by blast
  have b: "at_yx tags2 0 1 = at_yx reserved_tags 0 1"
    using px by (simp add: reserved_tags_def)
  show ?thesis using 1 m sp a 2 b by auto
qed

text \<open>
  Claim C9. A successful \<open>parse\<close> does not leave its label image as it was:
  every pixel of the image is overwritten in place with the bytes of its label plus
  one, so it reads as that label and differs from the pixel the caller supplied; and
  each region holds the coordinates, in scan order, of the pixels that carry the
  region's id in the rewritten image.
\<close>

theorem parse_rewrites_labels:
  assumes "parse tags empty_SuperpixelImage = Inr (True, tags', s')"
  shows "(\<forall>p. in_image tags p \<longrightarrow>
            at_yx tags' (fst p) (snd p) = tag_bytes (label_at tags p + 1) \<and>
            label_at tags' p = label_at tags p + 1 \<and>
            at_yx tags' (fst p) (snd p) \<noteq> at_yx tags (fst p) (snd p)) \<and>
         (\<forall>t sp. getSuperpixelPtr s' t = Some sp \<longrightarrow>
            coords sp = map (\<lambda>p. (snd p, fst p))
                          (filter (\<lambda>p. label_at tags' p = t) (scan_order tags')))"
proof -
  note pd = parsedD [OF parse_True_parsed(1) [OF assms]]
  note dims = pd(1,2) and px = pd(3) and lab = pd(4) and obj = pd(5)
  have so: "scan_order tags' = scan_order tags" by (simp add: scan_order_def dims)
  have a: "\<forall>p. in_image tags p \<longrightarrow>
            at_yx tags' (fst p) (snd p) = tag_bytes (label_at tags p + 1) \<and>
            label_at tags' p = label_at tags p + 1 \<and>
            at_yx tags' (fst p) (snd p) \<noteq> at_yx tags (fst p) (snd p)"
  proof (intro allI impI conjI)
    fix p assume p: "in_image tags p"
    show "at_yx tags' (fst p) (snd p) = tag_bytes (label_at tags p + 1)"
      using px [of "fst p" "snd p"] p by simp
    show l: "label_at tags' p = label_at tags p + 1" using p by (rule lab)
    show "at_yx tags' (fst p) (snd p) \<noteq> at_yx tags (fst p) (snd p)"
    proof
      assume "at_yx tags' (fst p) (snd p) = at_yx tags (fst p) (snd p)"
      then have "label_at tags' p = label_at tags p" by (simp add: label_at_def)
      then show False using l by simp
    qed
  qed
  have f: "\<And>t. filter (\<lambda>p. label_at tags' p = t) (scan_order tags) =
      filter (\<lambda>p. label_at tags p + 1 = t) (scan_order tags)"
    by (rule filter_cong) (auto simp: set_scan_order lab)
  have b: "\<forall>t sp. getSuperpixelPtr s' t = Some sp \<longrightarrow>
            coords sp = map (\<lambda>p. (snd p, fst p))
                          (filter (\<lambda>p. label_at tags' p = t) (scan_order tags'))"
    unfolding so f
    by (auto simp: obj parsed_object_def coords_with_label_def split: if_splits)
  show ?thesis using a b by blast
qed

theorem parse_rewrites_labels_witness:
  "\<exists>tags' s'. parse example_tags empty_SuperpixelImage = Inr (True, tags', s') \<and>
      at_yx example_tags 0 0 = (0, 0, 0) \<and> at_yx tags' 0 0 = (1, 0, 0) \<and>
      at_yx example_tags 0 1 = (1, 0, 0) \<and> at_yx tags' 0 1 = (2, 0, 0) \<and>
      label_at tags' (0, 1) = label_at example_tags (0, 1) + 1 \<and>
      map (\<lambda>(k, sp). (k, coords sp)) (tagToSuperpixelMap s') = [(1, [(0, 0)]), (2, [(1, 0)])]"
proof -
  from parse_example obtain tags1 s1 where
    1: "parse example_tags empty_SuperpixelImage = Inr (True, tags1, s1)"
    and px: "at_yx tags1 0 0 = (1, 0, 0)" "at_yx tags1 0 1 = (2, 0, 0)"
    and m: "tagToSuperpixelMap s1 =
       [(1, (new_Superpixel 1)\<lparr>coords := [(0, 0)]\<rparr>), (2, (new_Superpixel 2)\<lparr>coords := [(1, 0)]\<rparr>)]"
    by blast
  have "(0, 1) \<in> set (scan_order example_tags)" by (simp add: scan_order_example)
  then have "in_image example_tags (0, 1)" by (simp add: set_scan_order)
  then have "label_at tags1 (0, 1) = label_at example_tags (0, 1) + 1"
    using parse_rewrites_labels [OF 1] by blast
  moreover have "at_yx example_tags 0 0 = (0, 0, 0)" "at_yx example_tags 0 1 = (1, 0, 0)"
    by (simp_all add: example_tags_def)
  ultimately show ?thesis using 1 px m by auto
qed


section \<open>Invariants after parse and after every merge\<close>

text \<open>
  Claim C2. In every store that the public operations produce, that is after the
  initial \<open>parse\<close> and after every \<open>mergeEdge\<close>, for all active ids
  \<open>X\<close> and \<open>Y\<close>: \<open>Y\<close> is in the row of \<open>X\<close> iff \<open>X\<close> is in the row of
  \<open>Y\<close>, and no active id is in its own row.
\<close>

theorem reachable_adjacency_ok:
  "reachable tags s \<Longrightarrow> adjacency_ok s"
  by (rule wf_adjacency_ok) (rule reachable_wf)

text \<open>The two-pixel image, parsed, and its two regions merged.\<close>

lemma example_parse_merge:
  "\<exists>tags' s s'. parse example_tags empty_SuperpixelImage = Inr (True, tags', s) \<and>
     superpixels s = [1, 2] \<and> neighbors_of s 1 = [2] \<and> neighbors_of s 2 = [1] \<and>
     numCoords_of s 1 = 1 \<and> numCoords_of s 2 = 1 \<and>
     mergeEdge 1 2 s = Inr s' \<and> superpixels s' = [1] \<and> neighbors_of s' 1 = [] \<and>
     numCoords_of s' 1 = 2 \<and> reachable example_tags s \<and> reachable example_tags s'"
proof -
  from parse_example obtain tags1 s1 where
    1: "parse example_tags empty_SuperpixelImage = Inr (True, tags1, s1)"
    and m: "tagToSuperpixelMap s1 =
       [(1, (new_Superpixel 1)\<lparr>coords := [(0, 0)]\<rparr>), (2, (new_Superpixel 2)\<lparr>coords := [(1, 0)]\<rparr>)]"
    and sp: "superpixels s1 = [1, 2]" and nb: "neighbors_of s1 1 = [2]" "neighbors_of s1 2 = [1]"
    by blast
  have r1: "reachable example_tags s1" using 1 by (rule after_parse)
  have wf: "wf_image s1" using r1 by (rule reachable_wf)
  have a: "getSuperpixelPtr s1 1 = Some ((new_Superpixel 1)\<lparr>coords := [(0, 0)]\<rparr>)"
    and b: "getSuperpixelPtr s1 2 = Some ((new_Superpixel 2)\<lparr>coords := [(1, 0)]\<rparr>)"
    by (simp_all add: getSuperpixelPtr_def m)
  have n: "numCoords_of s1 1 = 1" "numCoords_of s1 2 = 1"
    by (simp_all add: numCoords_of_def a b)
  have ne: "(1::int) \<noteq> 2" by simp
  have adj: "2 \<in> set (neighbors_of s1 1)" by (simp add: nb)
  obtain s2 where 2: "mergeEdge 1 2 s1 = Inr s2"
    using mergeEdge_succeeds [OF wf ne a b adj] by blast
  have r2: "reachable example_tags s2" using r1 2 by (rule after_merge)
  from wf 2 obtain srcT dstT src dst dst' where
    sel: "(srcT, dstT) = (if numCoords_of s1 1 \<ge> numCoords_of s1 2 then (2, 1) else (1, 2))"
    and src: "getSuperpixelPtr s1 srcT = Some src" and dst: "getSuperpixelPtr s1 dstT = Some dst"
    and sps: "superpixels s2 = filter (\<lambda>t. t \<noteq> srcT) (superpixels s1)"
    and look: "getSuperpixelPtr s2 = (getSuperpixelPtr s1)(dstT \<mapsto> dst', srcT := None)"
    and cs: "coords dst' = coords dst @ coords src"
    and rows: "neighbors_of s2 = merged_rows (neighbors_of s1) srcT dstT"
    by (rule mergeEdge_Inr)
  have sd: "srcT = 2" "dstT = 1" using sel n by simp_all
  have "superpixels s2 = [1]" by (simp add: sps sd sp)
  moreover have "neighbors_of s2 1 = []" by (simp add: rows sd merged_rows_def nb)
  moreover have "numCoords_of s2 1 = 2"
    using src dst cs by (auto simp: numCoords_of_def look sd a b new_Superpixel_def)
  ultimately show ?thesis using 1 sp nb n 2 r1 r2 by blast
qed

theorem reachable_adjacency_ok_witness:
  "\<exists>tags' s s'. parse example_tags empty_SuperpixelImage = Inr (True, tags', s) \<and>
     mergeEdge 1 2 s = Inr s' \<and>
     neighbors_of s 1 = [2] \<and> neighbors_of s 2 = [1] \<and> adjacency_ok s \<and>
     neighbors_of s' 1 = [] \<and> adjacency_ok s'"
proof -
  from example_parse_merge obtain tags1 s1 s2 where
    "parse example_tags empty_SuperpixelImage = Inr (True, tags1, s1)"
    "mergeEdge 1 2 s1 = Inr s2" "neighbors_of s1 1 = [2]" "neighbors_of s1 2 = [1]"
    "neighbors_of s2 1 = []" and r: "reachable example_tags s1" "reachable example_tags s2"
    by blast
  moreover have "adjacency_ok s1" using r(1) by (rule reachable_adjacency_ok)
  moreover have "adjacency_ok s2" using r(2) by (rule reachable_adjacency_ok)
  ultimately show ?thesis by blast
qed

text \<open>
  Claim C3. A merge applied to a store reached from a parsed image by any sequence
  of merges leaves the coordinate count summed over the active regions unchanged;
  it is the number of pixels of the image.
\<close>

theorem merge_keeps_total_coords:
  assumes "reachable tags s" "mergeEdge A B s = Inr s'"
  shows "total_coords s' = total_coords s \<and> total_coords s' = nat (rows tags) * nat (cols tags)"
proof -
  have "reachable tags s'" using assms by (rule after_merge)
  then have "total_coords s' = nat (rows tags) * nat (cols tags)"
    by (rule reachable_total_coords)
  moreover have "total_coords s = nat (rows tags) * nat (cols tags)"
    using assms(1) by (rule reachable_total_coords)
  ultimately show ?thesis by simp
qed

theorem merge_keeps_total_coords_witness:
  "\<exists>tags' s s'. parse example_tags empty_SuperpixelImage = Inr (True, tags', s) \<and>
     mergeEdge 1 2 s = Inr s' \<and>
     numCoords_of s 1 = 1 \<and> numCoords_of s 2 = 1 \<and> numCoords_of s' 1 = 2 \<and>
     total_coords s = 2 \<and> total_coords s' = 2"
proof -
  from example_parse_merge obtain tags1 s1 s2 where
    p: "parse example_tags empty_SuperpixelImage = Inr (True, tags1, s1)"
    and m: "mergeEdge 1 2 s1 = Inr s2"
    and n: "numCoords_of s1 1 = 1" "numCoords_of s1 2 = 1" "numCoords_of s2 1 = 2"
    and r: "reachable example_tags s1"
    by blast
  have "total_coords s2 = total_coords s1 \<and>
      total_coords s2 = nat (rows example_tags) * nat (cols example_tags)"
    using r m by (rule merge_keeps_total_coords)
  then have "total_coords s1 = 2" "total_coords s2 = 2" by (simp_all add: example_tags_def)
  then show ?thesis using p m n by blast
qed

section \<open>The end of a pass with every region locked\<close>

text \<open>
  Claim C8, as amended. Take an iteration of either strategy that starts with the
  loop still running, over a store whose active ids are all live. In
  \<open>mergeBackprojectSuperpixels\<close>, when every region from the iterator on is locked
  or merged away, the iteration ends the loop if no merge was recorded since the
  last lock clear; otherwise it erases the lock entry of exactly the regions recorded
  as merged into, forgets the records, sorts the regions again, restarts the pass
  from the first one and counts one more lock clear, and the loop goes on. In
  \<open>mergeBredthFirstRecursive\<close>, when every region from the iterator on is locked,
  the iteration ends the loop and leaves every lock and every record as it was.
\<close>

theorem all_locked_pass:
  assumes "\<not> is_done st"
    and "\<forall>t \<in> set (superpixels s). getSuperpixelPtr s t \<noteq> None"
  shows "((\<forall>t \<in> set (drop (spIter st) (sortedSuperpixels st)).
             locked st t = Some True \<or> getSuperpixelPtr s t = None) \<longrightarrow>
          (\<exists>st'. backproject_iteration s st = Inr (Continue st') \<and>
             (if mergesSinceLockClear st = []
              then is_done st' \<and> locked st' = locked (backproject_select s st)
              else \<not> is_done st' \<and>
                   locked st' =
                     (\<lambda>t. if t \<in> fst ` set (mergesSinceLockClear st) then None
                           else locked (backproject_select s st) t) \<and>
                   mergesSinceLockClear st' = [] \<and> spIter st' = 0 \<and>
                   sortSuperpixelsBySize s = Inr (sortedSuperpixels st') \<and>
                   numLockClear st' = numLockClear st + 1))) \<and>
         ((\<forall>t \<in> set (drop (spIter st) (sortedSuperpixels st)). locked st t = Some True) \<longrightarrow>
          (\<exists>st'. bredthFirst_iteration st = Continue st' \<and> is_done st' \<and>
             locked st' = locked st \<and> mergesSinceLockClear st' = mergesSinceLockClear st \<and>
             numLockClear st' = numLockClear st))"
proof (intro conjI impI)
  assume all: "\<forall>t \<in> set (drop (spIter st) (sortedSuperpixels st)).
      locked st t = Some True \<or> getSuperpixelPtr s t = None"
  let ?st1 = "backproject_select s st"
  note sel = backproject_select_all_locked(1,3,4,5) [OF all]
  obtain ts where ts: "sortSuperpixelsBySize s = Inr ts"
    using sortSuperpixelsBySize_live [OF assms(2)] by blast
  show "\<exists>st'. backproject_iteration s st = Inr (Continue st') \<and>
            (if mergesSinceLockClear st = []
             then is_done st' \<and> locked st' = locked ?st1
             else \<not> is_done st' \<and>
                  locked st' =
                    (\<lambda>t. if t \<in> fst ` set (mergesSinceLockClear st) then None
                          else locked ?st1 t) \<and>
                  mergesSinceLockClear st' = [] \<and> spIter st' = 0 \<and>
                  sortSuperpixelsBySize s = Inr (sortedSuperpixels st') \<and>
                  numLockClear st' = numLockClear st + 1)"
  proof (cases "mergesSinceLockClear st = []")
    case True
    then have "backproject_iteration s st = Inr (Continue (?st1\<lparr>is_done := True\<rparr>))"
      using sel by (simp add: backproject_iteration_def backproject_all_locked_def Let_def)
    then show ?thesis using True by simp
  next
    case False
    then have "backproject_iteration s st =
        Inr (Continue (?st1\<lparr>locked := erase_locks (map fst (mergesSinceLockClear st)) (locked ?st1),
                    mergesSinceLockClear := [],
                    sortedSuperpixels := ts,
                    spIter := 0,
                    numLockClear := numLockClear st + 1\<rparr>))"
      using sel ts by (simp add: backproject_iteration_def backproject_all_locked_def Let_def)
    then show ?thesis using False sel ts assms(1) by (simp add: erase_locks_eq)
  qed
next
  assume all: "\<forall>t \<in> set (drop (spIter st) (sortedSuperpixels st)). locked st t = Some True"
  let ?st1 = "bredthFirst_select st"
  note sel = bredthFirst_select_all_locked [OF all]
  have "bredthFirst_iteration st = Continue (?st1\<lparr>is_done := True\<rparr>)"
    using sel by (simp add: bredthFirst_iteration_def bredthFirst_all_locked_def Let_def)
  then show "\<exists>st'. bredthFirst_iteration st = Continue st' \<and> is_done st' \<and>
            locked st' = locked st \<and> mergesSinceLockClear st' = mergesSinceLockClear st \<and>
            numLockClear st' = numLockClear st"
    using sel by simp
qed

lemma sortSuperpixelsBySize_merge_example: "sortSuperpixelsBySize merge_example = Inr [1, 3, 2]"
  by (simp add: sortSuperpixelsBySize_def merge_example_def getSuperpixelPtr_def sort_by_def
      example_Superpixel_def CompareSuperpixelSizeDecreasingFunc_def)

lemma locked_example_select:
  "locked (backproject_select merge_example locked_example) =
     [1 \<mapsto> True, 2 \<mapsto> True, 3 \<mapsto> True, 7 \<mapsto> True]"
  by (simp add: backproject_select_def locked_example_def merge_example_def getSuperpixelPtr_def
      Let_def)

theorem all_locked_pass_witness:
  "\<not> is_done locked_example \<and>
   list_all (\<lambda>t. getSuperpixelPtr merge_example t \<noteq> None) (superpixels merge_example) \<and>
   list_all (\<lambda>t. locked locked_example t = Some True \<or> getSuperpixelPtr merge_example t = None)
     (drop (spIter locked_example) (sortedSuperpixels locked_example)) \<and>
   (\<exists>st'. backproject_iteration merge_example locked_example = Inr (Continue st') \<and>
      \<not> is_done st' \<and> locked st' 1 = None \<and> locked st' 2 = Some True \<and>
      locked st' 3 = Some True \<and> locked st' 7 = Some True \<and> mergesSinceLockClear st' = [] \<and>
      sortedSuperpixels st' = [1, 3, 2] \<and> spIter st' = 0 \<and> numLockClear st' = 1) \<and>
   list_all (\<lambda>t. locked bredthFirst_example t = Some True)
     (drop (spIter bredthFirst_example) (sortedSuperpixels bredthFirst_example)) \<and>
   (\<exists>st'. bredthFirst_iteration bredthFirst_example = Continue st' \<and> is_done st' \<and>
      locked st' 1 = Some True)"
proof -
  have h1: "\<forall>t \<in> set (drop (spIter locked_example) (sortedSuperpixels locked_example)).
      locked locked_example t = Some True \<or> getSuperpixelPtr merge_example t = None"
    by (simp add: locked_example_def merge_example_def getSuperpixelPtr_def)
  have h2: "\<forall>t \<in> set (superpixels merge_example). getSuperpixelPtr merge_example t \<noteq> None"
    by (simp add: merge_example_def getSuperpixelPtr_def)
  have h3: "\<not> is_done locked_example" by (simp add: locked_example_def)
  have h4: "\<forall>t \<in> set (drop (spIter bredthFirst_example) (sortedSuperpixels bredthFirst_example)).
      locked bredthFirst_example t = Some True"
    by (simp add: bredthFirst_example_def locked_example_def)
  have h5: "\<not> is_done bredthFirst_example"
    by (simp add: bredthFirst_example_def locked_example_def)
  have m: "mergesSinceLockClear locked_example = [(1, True)]"
     "numLockClear locked_example = 0"
     "locked bredthFirst_example 1 = Some True"
    by (simp_all add: locked_example_def bredthFirst_example_def)
  from all_locked_pass [OF h3 h2] h1
  obtain st' where
    a: "backproject_iteration merge_example locked_example = Inr (Continue st')"
       "\<not> is_done st'"
       "locked st' = (\<lambda>t. if t \<in> fst ` set (mergesSinceLockClear locked_example) then None
                          else locked (backproject_select merge_example locked_example) t)"
       "mergesSinceLockClear st' = []" "spIter st' = 0"
       "sortSuperpixelsBySize merge_example = Inr (sortedSuperpixels st')"
       "numLockClear st' = numLockClear locked_example + 1"
    unfolding m(1) by auto
  from all_locked_pass [OF h5 h2, of ] h4
  obtain st'' where
    b: "bredthFirst_iteration bredthFirst_example = Continue st''" "is_done st''"
       "locked st'' = locked bredthFirst_example"
    by auto
  have "sortedSuperpixels st' = [1, 3, 2]"
    using a(6) sortSuperpixelsBySize_merge_example by simp
  then have "\<exists>st'. backproject_iteration merge_example locked_example = Inr (Continue st') \<and>
      \<not> is_done st' \<and> locked st' 1 = None \<and> locked st' 2 = Some True \<and>
      locked st' 3 = Some True \<and> locked st' 7 = Some True \<and> mergesSinceLockClear st' = [] \<and>
      sortedSuperpixels st' = [1, 3, 2] \<and> spIter st' = 0 \<and> numLockClear st' = 1"
    using a m by (intro exI [of _ st']) (simp add: locked_example_select)
  moreover have "\<exists>st'. bredthFirst_iteration bredthFirst_example = Continue st' \<and> is_done st' \<and>
      locked st' 1 = Some True"
    using b m by (intro exI [of _ st'']) simp
  ultimately show ?thesis using h1 h2 h3 h4 by (simp add: list_all_iff)
qed

text \<open>
  Claim C8 as stated fails for \<open>mergeBredthFirstRecursive\<close>: with every region
  locked and a merge into region 1 recorded since the last lock clear, the strategy
  ends, region 1 keeps its lock, and no lock clear is counted.
\<close>

theorem bredthFirst_keeps_locks_counterexample:
  "mergesSinceLockClear bredthFirst_example \<noteq> [] \<and>
   list_all (\<lambda>t. locked bredthFirst_example t = Some True)
     (sortedSuperpixels bredthFirst_example) \<and>
   (case bredthFirst_iteration bredthFirst_example of
      Continue st' \<Rightarrow>
        is_done st' \<and> locked st' 1 = Some True \<and> mergesSinceLockClear st' = [(1, True)] \<and>
        numLockClear st' = 0
    | Expand st' \<Rightarrow> False)"
  by (simp add: bredthFirst_example_def locked_example_def bredthFirst_iteration_def
      bredthFirst_select_def bredthFirst_all_locked_def Let_def)

end
